theory Spec2Isabelle
  imports Main "HOL-Library.AList"
begin

section \<open>Grid model\<close>

text \<open>
  A cell coordinate is a pair of integers. The JavaScript source keys its
  objects by the text \<open>x,y\<close> that an array \<open>[x, y]\<close> or a template literal
  renders; on integers that rendering is one-to-one, so the objects
  (\<open>grid\<close>, \<open>openNodes\<close>, \<open>closedNodes\<close>) are modelled as association
  lists keyed by the pair itself, in the insertion order that a JavaScript
  object keeps for such keys. Assignment to a key is \<open>AList.update\<close>
  (replace in place, or append when the key is new), \<open>delete\<close> is
  \<open>AList.delete\<close>, lookup is \<open>map_of\<close>.
\<close>

type_synonym cell = "int \<times> int"

record walls =
  top_wall :: bool
  bottom_wall :: bool
  left_wall :: bool
  right_wall :: bool

type_synonym grid = "(cell \<times> walls) list"

datatype side = TopSide | BottomSide | LeftSide | RightSide

datatype error = TypeError

fun has_wall :: "walls \<Rightarrow> side \<Rightarrow> bool" where
  "has_wall ws TopSide = top_wall ws"
| "has_wall ws BottomSide = bottom_wall ws"
| "has_wall ws LeftSide = left_wall ws"
| "has_wall ws RightSide = right_wall ws"

fun clear_wall :: "side \<Rightarrow> walls \<Rightarrow> walls" where
  "clear_wall TopSide ws = ws\<lparr>top_wall := False\<rparr>"
| "clear_wall BottomSide ws = ws\<lparr>bottom_wall := False\<rparr>"
| "clear_wall LeftSide ws = ws\<lparr>left_wall := False\<rparr>"
| "clear_wall RightSide ws = ws\<lparr>right_wall := False\<rparr>"

definition closed_walls :: walls where
  "closed_walls = \<lparr>top_wall = True, bottom_wall = True, left_wall = True, right_wall = True\<rparr>"

text \<open>
  \<open>populateGrid(_gridHeight, _gridWidth)\<close>: the outer loop runs over the
  columns \<open>i = 0 .. _gridWidth - 1\<close>, the inner one over the rows
  \<open>j = 0 .. _gridHeight - 1\<close>, each assigning a fresh all-walled cell to key
  \<open>[i, j]\<close>. There is no check of the arguments: a bound that is not
  positive makes its loop run zero times.
\<close>

definition populateGrid :: "int \<Rightarrow> int \<Rightarrow> grid" where
  "populateGrid gridHeight gridWidth =
     foldl (\<lambda>g i. foldl (\<lambda>g j. AList.update (int i, int j) closed_walls g) g [0..<nat gridHeight])
       [] [0..<nat gridWidth]"

text \<open>
  \<open>removeWall\<close>: the difference of the two cells selects a pair of wall
  names from \<open>directionDictionary\<close>; a difference that is no unit step
  gives \<open>undefined\<close>, and indexing it throws. So does writing a wall of a
  cell that the grid does not hold. A call that throws is modelled by the
  error alone; a call that returns, by the grid it leaves.
\<close>

definition directionDictionary :: "cell \<Rightarrow> (side \<times> side) option" where
  "directionDictionary d =
     (if d = (0, -1) then Some (TopSide, BottomSide)
      else if d = (0, 1) then Some (BottomSide, TopSide)
      else if d = (1, 0) then Some (RightSide, LeftSide)
      else if d = (-1, 0) then Some (LeftSide, RightSide)
      else None)"

definition removeWall :: "grid \<Rightarrow> cell \<Rightarrow> cell \<Rightarrow> error + grid" where
  "removeWall g cellFrom cellTo =
     (case directionDictionary (fst cellTo - fst cellFrom, snd cellTo - snd cellFrom) of
        None \<Rightarrow> Inl TypeError
      | Some (w0, w1) \<Rightarrow>
          (case map_of g cellFrom of
             None \<Rightarrow> Inl TypeError
           | Some fromWalls \<Rightarrow>
               (let g1 = AList.update cellFrom (clear_wall w0 fromWalls) g in
                case map_of g1 cellTo of
                  None \<Rightarrow> Inl TypeError
                | Some toWalls \<Rightarrow> Inr (AList.update cellTo (clear_wall w1 toWalls) g1))))"

section \<open>Maze generator\<close>

text \<open>
  The visited set holds strings. A cell is looked up in it under the text
  \<open>x,y\<close> of a template literal, so the decimal rendering of an integer
  is part of the model.
\<close>

definition digit_char :: "nat \<Rightarrow> char" where
  "digit_char d = char_of (48 + d)"

function showNat :: "nat \<Rightarrow> string" where
  "showNat n = (if n < 10 then [digit_char n] else showNat (n div 10) @ [digit_char (n mod 10)])"
  by pat_completeness auto
termination
  by (relation "measure id") auto

declare showNat.simps [simp del]

definition showInt :: "int \<Rightarrow> string" where
  "showInt i = (if i < 0 then CHR ''-'' # showNat (nat (- i)) else showNat (nat i))"

definition cellKey :: "cell \<Rightarrow> string" where
  "cellKey c = showInt (fst c) @ '','' @ showInt (snd c)"

text \<open>
  \<open>getRandomNeighbour\<close> collects the candidates in the order right, left,
  down, up: a candidate is kept when the grid holds it and the visited set
  does not hold its key. The draw \<open>Math.floor(Math.random() * n)\<close> is an
  arbitrary index below \<open>n\<close>; it is modelled by a number \<open>r\<close> supplied
  from outside, reduced modulo \<open>n\<close>. No number is drawn when there is no
  candidate.
\<close>

definition validNeighbours :: "cell \<Rightarrow> grid \<Rightarrow> string set \<Rightarrow> cell list" where
  "validNeighbours current g visited =
     filter (\<lambda>c. map_of g c \<noteq> None \<and> cellKey c \<notin> visited)
       [(fst current + 1, snd current), (fst current - 1, snd current),
        (fst current, snd current + 1), (fst current, snd current - 1)]"

definition getRandomNeighbour :: "nat \<Rightarrow> cell \<Rightarrow> grid \<Rightarrow> string set \<Rightarrow> cell option" where
  "getRandomNeighbour r current g visited =
     (let vs = validNeighbours current g visited in
      if vs = [] then None else Some (vs ! (r mod length vs)))"

lemma removeWall_Inr:
  "removeWall g a b = Inr g' \<longleftrightarrow>
     (\<exists>w0 w1 fw tw.
        directionDictionary (fst b - fst a, snd b - snd a) = Some (w0, w1) \<and>
        map_of g a = Some fw \<and>
        map_of (AList.update a (clear_wall w0 fw) g) b = Some tw \<and>
        g' = AList.update b (clear_wall w1 tw) (AList.update a (clear_wall w0 fw) g))"
  by (auto simp: removeWall_def Let_def split: option.splits prod.splits)

lemma map_of_keys: "map_of al k = Some v \<Longrightarrow> k \<in> fst ` set al"
  by (metis domI dom_map_of_conv_image_fst)

lemma removeWall_keys:
  assumes "removeWall g a b = Inr g'"
  shows "fst ` set g' = fst ` set g"
proof -
  from assms obtain w0 w1 fw tw where
    a: "map_of g a = Some fw" and
    b: "map_of (AList.update a (clear_wall w0 fw) g) b = Some tw" and
    g': "g' = AList.update b (clear_wall w1 tw) (AList.update a (clear_wall w0 fw) g)"
    unfolding removeWall_Inr by blast
  have ka: "a \<in> fst ` set g" using a by (rule map_of_keys)
  have "b \<in> fst ` set (AList.update a (clear_wall w0 fw) g)" using b by (rule map_of_keys)
  then have kb: "b \<in> fst ` set g" using ka by (auto simp: AList.dom_update)
  show ?thesis using ka kb by (auto simp: g' AList.dom_update)
qed

lemma getRandomNeighbour_valid:
  assumes "getRandomNeighbour r current g visited = Some nb"
  shows "nb \<in> fst ` set g" and "cellKey nb \<notin> visited"
proof -
  let ?vs = "validNeighbours current g visited"
  from assms have ne: "?vs \<noteq> []" and nb: "nb = ?vs ! (r mod length ?vs)"
    by (auto simp: getRandomNeighbour_def Let_def split: if_splits)
  then have "nb \<in> set ?vs" by simp
  then have "map_of g nb \<noteq> None \<and> cellKey nb \<notin> visited"
    unfolding validNeighbours_def set_filter by blast
  then show "nb \<in> fst ` set g" and "cellKey nb \<notin> visited"
    by (auto simp: map_of_eq_None_iff)
qed

text \<open>
  The loop of \<open>generateMaze\<close>. The stack is a list with its top at the
  head; \<open>rnd\<close> is the sequence of random numbers and \<open>i\<close> counts the
  draws made so far.
\<close>

function generateMaze_loop ::
  "(nat \<Rightarrow> nat) \<Rightarrow> nat \<Rightarrow> grid \<Rightarrow> cell list \<Rightarrow> string set \<Rightarrow> error + grid" where
  "generateMaze_loop rnd i g [] visited = Inr g"
| "generateMaze_loop rnd i g (current # stack) visited =
     (case getRandomNeighbour (rnd i) current g visited of
        None \<Rightarrow> generateMaze_loop rnd i g stack visited
      | Some chosenNeighbour \<Rightarrow>
          (case removeWall g current chosenNeighbour of
             Inl e \<Rightarrow> Inl e
           | Inr g' \<Rightarrow>
               generateMaze_loop rnd (Suc i) g' (chosenNeighbour # current # stack)
                 (insert (cellKey chosenNeighbour) visited)))"
  by pat_completeness auto

termination
proof (relation "measures [\<lambda>(rnd, i, g, stack, visited). card {c \<in> fst ` set g. cellKey c \<notin> visited},
                           \<lambda>(rnd, i, g, stack, visited). length stack]", goal_cases)
  case 1
  then show ?case by simp
next
  case (2 rnd i g current stack visited)
  then show ?case by simp
next
  case (3 rnd i g current stack visited nb g')
  have fin: "finite {c \<in> fst ` set g. cellKey c \<notin> visited}" by simp
  have keys: "fst ` set g' = fst ` set g" using 3 removeWall_keys by blast
  have nb: "nb \<in> fst ` set g" "cellKey nb \<notin> visited"
    using 3 getRandomNeighbour_valid by blast+
  have "{c \<in> fst ` set g'. cellKey c \<notin> insert (cellKey nb) visited}
        \<subset> {c \<in> fst ` set g. cellKey c \<notin> visited}"
    using nb keys by auto
  then have "card {c \<in> fst ` set g'. cellKey c \<notin> insert (cellKey nb) visited}
        < card {c \<in> fst ` set g. cellKey c \<notin> visited}"
    using fin by (rule psubset_card_mono[rotated])
  then show ?case by simp
qed

text \<open>
  \<open>generateMaze\<close> starts from the cell \<open>[0, 0]\<close> on the stack. Its visited
  set is built by \<open>new Set(`${current[0]},${current[1]}`)\<close>: the constructor
  is given the string \<open>0,0\<close> as the iterable of the initial members, so the
  set starts with the one-character strings of that text.
\<close>

definition initialVisited :: "string set" where
  "initialVisited = (\<lambda>ch. [ch]) ` set (cellKey (0, 0))"

definition generateMaze :: "(nat \<Rightarrow> nat) \<Rightarrow> grid \<Rightarrow> error + grid" where
  "generateMaze rnd g = generateMaze_loop rnd 0 g [(0, 0)] initialVisited"

text \<open>
  The cell next to \<open>c\<close> on a given side, and the side of that cell
  that faces back: the movement vectors and wall pairs of
  \<open>directionDictionary\<close>.
\<close>

fun neighbour :: "cell \<Rightarrow> side \<Rightarrow> cell" where
  "neighbour c TopSide = (fst c, snd c - 1)"
| "neighbour c BottomSide = (fst c, snd c + 1)"
| "neighbour c LeftSide = (fst c - 1, snd c)"
| "neighbour c RightSide = (fst c + 1, snd c)"

fun opposite :: "side \<Rightarrow> side" where
  "opposite TopSide = BottomSide"
| "opposite BottomSide = TopSide"
| "opposite LeftSide = RightSide"
| "opposite RightSide = LeftSide"

text \<open>
  The wall-symmetry invariant: for every cell of the grid and every side on
  which the grid holds a neighbour, the cell's wall on that side and the
  neighbour's wall facing back are both closed or both open.
\<close>

definition wall_symmetric :: "grid \<Rightarrow> bool" where
  "wall_symmetric g =
     (\<forall>a \<in> fst ` set g. \<forall>d \<in> {TopSide, BottomSide, LeftSide, RightSide}.
        case map_of g a of
          None \<Rightarrow> True
        | Some wa \<Rightarrow>
            (case map_of g (neighbour a d) of
               None \<Rightarrow> True
             | Some wb \<Rightarrow> has_wall wa d = has_wall wb (opposite d)))"

text \<open>
  Two cells are 4-adjacent when their Manhattan distance is exactly 1.
\<close>

definition adjacent4 :: "cell \<Rightarrow> cell \<Rightarrow> bool" where
  "adjacent4 a b \<longleftrightarrow> \<bar>fst b - fst a\<bar> + \<bar>snd b - snd a\<bar> = 1"

text \<open>
  The passage graph of a grid: one edge for every pair of horizontally or
  vertically adjacent cells of the grid whose facing walls are both open,
  listed once from its left or upper end.
\<close>

definition passage_edges :: "grid \<Rightarrow> (cell \<times> cell) list" where
  "passage_edges g =
     concat (map (\<lambda>(a, wa).
       concat (map (\<lambda>d.
         case map_of g (neighbour a d) of
           None \<Rightarrow> []
         | Some wb \<Rightarrow>
             if \<not> has_wall wa d \<and> \<not> has_wall wb (opposite d) then [(a, neighbour a d)] else [])
         [RightSide, BottomSide])) g)"

section \<open>Path solver\<close>

text \<open>
  A search node as \<open>findPath\<close> builds it. \<open>openNodes\<close> and
  \<open>closedNodes\<close> are objects from cell keys to such nodes.
\<close>

record search_node =
  parent :: cell
  moveCost :: int
  distCost :: int
  totalCost :: int

type_synonym nodes = "(cell \<times> search_node) list"

definition getHeuristicMeasure :: "cell \<Rightarrow> cell \<Rightarrow> int" where
  "getHeuristicMeasure currentCell targetCell =
     \<bar>fst targetCell - fst currentCell\<bar> + \<bar>snd targetCell - snd currentCell\<bar>"

text \<open>
  \<open>getLowestCostNodeKey\<close> reduces over the entries in key order, starting
  from the first key, and moves to an entry only when its total cost is
  strictly less than that of the entry held so far. \<open>None\<close> stands for
  \<open>undefined\<close>: the first key of an empty object, or the read of
  \<open>totalCost\<close> through a key the object does not hold.
\<close>

definition getLowestCostNodeKey :: "nodes \<Rightarrow> cell option" where
  "getLowestCostNodeKey openNodes =
     foldl (\<lambda>minEntry (key, val).
              case minEntry of
                None \<Rightarrow> None
              | Some m \<Rightarrow>
                  (case map_of openNodes m of
                     None \<Rightarrow> None
                   | Some held \<Rightarrow> Some (if totalCost val < totalCost held then key else m)))
       (case openNodes of [] \<Rightarrow> None | (k, _) # _ \<Rightarrow> Some k)
       openNodes"

text \<open>
  \<open>getViableNeighbours\<close> lists the candidates up, down, left, right and
  removes, from the last to the first, each one that the grid does not
  hold, whose wall facing the current cell is closed, or that is in
  \<open>closedNodes\<close>. What is left keeps the order up, down, left, right.
\<close>

definition getViableNeighbours :: "grid \<Rightarrow> cell \<Rightarrow> nodes \<Rightarrow> cell list" where
  "getViableNeighbours g currentNode closedNodes =
     (let x = fst currentNode; y = snd currentNode;
          removed = (\<lambda>nb facing.
            case map_of g nb of
              None \<Rightarrow> True
            | Some ws \<Rightarrow> has_wall ws facing \<or> map_of closedNodes nb \<noteq> None)
      in (if removed (x, y - 1) BottomSide then [] else [(x, y - 1)]) @
         (if removed (x, y + 1) TopSide then [] else [(x, y + 1)]) @
         (if removed (x - 1, y) RightSide then [] else [(x - 1, y)]) @
         (if removed (x + 1, y) LeftSide then [] else [(x + 1, y)]))"

text \<open>
  The body of the loop over the viable neighbours: the candidate node,
  whose total cost is first 0 and then set to the sum, is stored when the
  neighbour has no entry in \<open>openNodes\<close> or when the entry it has costs
  strictly more.
\<close>

definition neighbourNode :: "cell \<Rightarrow> search_node \<Rightarrow> cell \<Rightarrow> cell \<Rightarrow> search_node" where
  "neighbourNode currentKey current finishCell nb =
     (let n = \<lparr>parent = currentKey, moveCost = moveCost current + 1,
                distCost = getHeuristicMeasure nb finishCell, totalCost = 0\<rparr>
      in n\<lparr>totalCost := moveCost n + distCost n\<rparr>)"

definition considerNeighbour :: "cell \<Rightarrow> search_node \<Rightarrow> cell \<Rightarrow> nodes \<Rightarrow> cell \<Rightarrow> nodes" where
  "considerNeighbour currentKey current finishCell openNodes nb =
     (let n = neighbourNode currentKey current finishCell nb in
      case map_of openNodes nb of
        None \<Rightarrow> AList.update nb n openNodes
      | Some held \<Rightarrow> if totalCost held > totalCost n then AList.update nb n openNodes else openNodes)"

text \<open>
  The state of a call of \<open>findPath\<close>: the grid it was given and its two
  local objects. One pass of the loop body on a node that is not the finish
  cell relaxes the viable neighbours, records the node in \<open>closedNodes\<close>
  and deletes it from \<open>openNodes\<close>.
\<close>

record solver_state =
  s_grid :: grid
  s_open :: nodes
  s_closed :: nodes

definition expand :: "cell \<Rightarrow> cell \<Rightarrow> search_node \<Rightarrow> solver_state \<Rightarrow> solver_state" where
  "expand finishCell currentKey current s =
     s\<lparr>s_open :=
         AList.delete currentKey
           (foldl (considerNeighbour currentKey current finishCell) (s_open s)
              (getViableNeighbours (s_grid s) currentKey (s_closed s))),
       s_closed := AList.update currentKey current (s_closed s)\<rparr>"

lemma getLowestCostNodeKey_fold_key:
  "acc \<in> Some ` fst ` set al \<or> acc = None \<Longrightarrow>
   foldl (\<lambda>minEntry (key, val).
              case minEntry of
                None \<Rightarrow> None
              | Some m \<Rightarrow>
                  (case map_of al m of
                     None \<Rightarrow> None
                   | Some held \<Rightarrow> Some (if totalCost val < totalCost held then key else m)))
       acc xs = Some k \<Longrightarrow> set xs \<subseteq> set al \<Longrightarrow> k \<in> fst ` set al"
proof (induction xs arbitrary: acc)
  case Nil
  then show ?case by auto
next
  case (Cons x xs)
  show ?case
  proof (rule Cons.IH[OF _ Cons.prems(2)[unfolded foldl_Cons]])
    show "set xs \<subseteq> set al" using Cons.prems(3) by simp
    have "x \<in> set al" using Cons.prems(3) by simp
    then have "fst x \<in> fst ` set al" by (rule imageI)
    then show "(case x of (key, val) \<Rightarrow>
                case acc of None \<Rightarrow> None
                | Some m \<Rightarrow> (case map_of al m of None \<Rightarrow> None
                   | Some held \<Rightarrow> Some (if totalCost val < totalCost held then key else m)))
           \<in> Some ` fst ` set al \<or>
          (case x of (key, val) \<Rightarrow>
                case acc of None \<Rightarrow> None
                | Some m \<Rightarrow> (case map_of al m of None \<Rightarrow> None
                   | Some held \<Rightarrow> Some (if totalCost val < totalCost held then key else m))) = None"
      using Cons.prems(1) by (cases x) (auto split: option.splits)
  qed
qed

lemma getLowestCostNodeKey_key:
  "getLowestCostNodeKey al = Some k \<Longrightarrow> k \<in> fst ` set al"
  unfolding getLowestCostNodeKey_def
  by (erule getLowestCostNodeKey_fold_key[rotated]) (auto split: list.splits)

lemma getViableNeighbours_sub:
  "nb \<in> set (getViableNeighbours g c closedNodes) \<Longrightarrow>
     nb \<in> fst ` set g \<and> nb \<notin> fst ` set closedNodes"
  by (auto simp: getViableNeighbours_def Let_def map_of_eq_None_iff
      split: if_splits option.splits dest: map_of_keys)

lemma considerNeighbour_keys:
  "fst ` set (considerNeighbour k n fin al nb) = insert nb (fst ` set al)"
  by (auto simp: considerNeighbour_def Let_def AList.dom_update split: option.splits dest: map_of_keys)

lemma considerNeighbour_fold_keys:
  "fst ` set (foldl (considerNeighbour k n fin) al nbs) = fst ` set al \<union> set nbs"
  by (induction nbs arbitrary: al) (auto simp: considerNeighbour_keys)

lemma delete_keys_set: "fst ` set (AList.delete k al) = fst ` set al - {k}"
proof -
  have "fst ` set (AList.delete k al) = set (map fst (AList.delete k al))" by simp
  also have "\<dots> = set (map fst al) - {k}" unfolding AList.delete_keys by simp
  finally show ?thesis by simp
qed

lemma expand_keys:
  "fst ` set (s_open (expand fin k n s)) =
     (fst ` set (s_open s) \<union> set (getViableNeighbours (s_grid s) k (s_closed s))) - {k}"
  "fst ` set (s_closed (expand fin k n s)) = insert k (fst ` set (s_closed s))"
  "s_grid (expand fin k n s) = s_grid s"
  by (simp_all add: expand_def considerNeighbour_fold_keys AList.dom_update delete_keys_set)

lemma expand_measure:
  assumes k: "k \<in> fst ` set (s_open s)"
  shows "card (fst ` set (s_grid (expand fin k n s)) - fst ` set (s_closed (expand fin k n s))) +
         card (fst ` set (s_open (expand fin k n s)) -
               (fst ` set (s_grid (expand fin k n s)) - fst ` set (s_closed (expand fin k n s))))
       < card (fst ` set (s_grid s) - fst ` set (s_closed s)) +
         card (fst ` set (s_open s) - (fst ` set (s_grid s) - fst ` set (s_closed s)))"
proof -
  let ?G = "fst ` set (s_grid s)" and ?C = "fst ` set (s_closed s)" and ?K = "fst ` set (s_open s)"
  let ?N = "set (getViableNeighbours (s_grid s) k (s_closed s))"
  let ?U = "?G - ?C"
  have N: "?N \<subseteq> ?U" using getViableNeighbours_sub by blast
  have U': "?G - insert k ?C = ?U - {k}" by blast
  have KU: "((?K \<union> ?N) - {k}) - (?U - {k}) = (?K - ?U) - {k}" using N by blast
  have fin: "finite ?U" "finite (?K - ?U)" by simp_all
  show ?thesis
  proof (cases "k \<in> ?U")
    case True
    with fin(1) have "card (?U - {k}) < card ?U" by (rule card_Diff1_less)
    moreover have "(?K - ?U) - {k} = ?K - ?U" using True by blast
    ultimately show ?thesis unfolding expand_keys U' KU by simp
  next
    case False
    then have "k \<in> ?K - ?U" using k by blast
    with fin(2) have "card ((?K - ?U) - {k}) < card (?K - ?U)" by (rule card_Diff1_less)
    moreover have "?U - {k} = ?U" using False by blast
    ultimately show ?thesis unfolding expand_keys U' KU by simp
  qed
qed

text \<open>
  The loop of \<open>findPath\<close>. It returns what the call returns, with the
  state at that point: \<open>Inr None\<close> is \<open>undefined\<close> (no path),
  \<open>Inr (Some (closedNodes, finishCell))\<close> the pair of a found path, and
  \<open>Inl\<close> a thrown error. \<open>getLowestCostNodeKey\<close> returns a key of a
  non-empty \<open>openNodes\<close>, so the two error branches are never taken.
\<close>

function findPath_loop ::
  "cell \<Rightarrow> solver_state \<Rightarrow> (error + (nodes \<times> cell) option) \<times> solver_state" where
  "findPath_loop finishCell s =
     (if s_open s = [] then (Inr None, s)
      else
        (case getLowestCostNodeKey (s_open s) of
           None \<Rightarrow> (Inl TypeError, s)
         | Some minKey \<Rightarrow>
             (case map_of (s_open s) minKey of
                None \<Rightarrow> (Inl TypeError, s)
              | Some current \<Rightarrow>
                  if minKey = finishCell then
                    (let s' = s\<lparr>s_closed := AList.update minKey current (s_closed s)\<rparr>
                     in (Inr (Some (s_closed s', finishCell)), s'))
                  else findPath_loop finishCell (expand finishCell minKey current s))))"
  by pat_completeness auto
termination
proof (relation "measure (\<lambda>(fin, s).
         card (fst ` set (s_grid s) - fst ` set (s_closed s)) +
         card (fst ` set (s_open s) - (fst ` set (s_grid s) - fst ` set (s_closed s))))",
       goal_cases)
  case 1
  then show ?case by simp
next
  case (2 finishCell s minKey current)
  have "minKey \<in> fst ` set (s_open s)" using 2(2) by (rule getLowestCostNodeKey_key)
  then show ?case using expand_measure by simp
qed

declare findPath_loop.simps [simp del]

text \<open>
  \<open>findPath\<close>: the finish cell is \<open>(gridWidth - 1, gridHeight - 1)\<close>, the
  search starts with the node of cell \<open>(0, 0)\<close> alone in \<open>openNodes\<close>,
  all its costs 0 and itself as parent.
\<close>

definition startNode :: search_node where
  "startNode = \<lparr>parent = (0, 0), moveCost = 0, distCost = 0, totalCost = 0\<rparr>"

definition initialState :: "grid \<Rightarrow> solver_state" where
  "initialState g = \<lparr>s_grid = g, s_open = [((0, 0), startNode)], s_closed = []\<rparr>"

definition findPath_run ::
  "grid \<Rightarrow> int \<Rightarrow> int \<Rightarrow> (error + (nodes \<times> cell) option) \<times> solver_state" where
  "findPath_run g gridWidth gridHeight =
     findPath_loop (gridWidth - 1, gridHeight - 1) (initialState g)"

definition findPath :: "grid \<Rightarrow> int \<Rightarrow> int \<Rightarrow> error + (nodes \<times> cell) option" where
  "findPath g gridWidth gridHeight = fst (findPath_run g gridWidth gridHeight)"

text \<open>
  The walk of \<open>drawFoundPath\<close> over the parent links of the closed set,
  from the goal: it shades the current cell, stops at the cell \<open>(0, 0)\<close>
  and otherwise moves to the parent recorded for the current cell. The
  model returns the cells shaded, in the order of the walk; the read of the
  parent of a cell that the closed set does not hold throws. The walk need
  not end on an arbitrary closed set, so no result is \<open>None\<close>.
\<close>

partial_function (option) drawFoundPath :: "nodes \<Rightarrow> cell \<Rightarrow> (error + cell list) option" where
  "drawFoundPath closed current =
     (if current = (0, 0) then Some (Inr [current])
      else
        (case map_of closed current of
           None \<Rightarrow> Some (Inl TypeError)
         | Some n \<Rightarrow>
             Option.bind (drawFoundPath closed (parent n))
               (\<lambda>r. Some (case r of Inl e \<Rightarrow> Inl e | Inr cells \<Rightarrow> Inr (current # cells)))))"

section \<open>Notions the properties are stated with\<close>

text \<open>
  The operation \<open>is_open\<close> of the specification has no counterpart in
  the source. This definition follows the specification's words, to be
  compared with the test that \<open>getViableNeighbours\<close> makes: the wall of
  the cell on the given side is open and the grid holds the neighbouring
  cell on that side.
\<close>

definition spec_is_open :: "grid \<Rightarrow> cell \<Rightarrow> side \<Rightarrow> bool" where
  "spec_is_open g c d =
     (case map_of g c of
        None \<Rightarrow> False
      | Some ws \<Rightarrow> \<not> has_wall ws d \<and> map_of g (neighbour c d) \<noteq> None)"

definition spec_step :: "grid \<Rightarrow> cell \<Rightarrow> cell \<Rightarrow> bool" where
  "spec_step g a b \<longleftrightarrow>
     (\<exists>d \<in> {TopSide, BottomSide, LeftSide, RightSide}. b = neighbour a d \<and> spec_is_open g a d)"

text \<open>
  The move the solver allows from a cell to another: the test of
  \<open>getViableNeighbours\<close> with an empty closed set.
\<close>

definition passable :: "grid \<Rightarrow> cell \<Rightarrow> cell \<Rightarrow> bool" where
  "passable g a b \<longleftrightarrow> b \<in> set (getViableNeighbours g a [])"

text \<open>
  A route is a non-empty list of cells in which every cell is followed by
  one that a step from it reaches.
\<close>

fun route :: "(cell \<Rightarrow> cell \<Rightarrow> bool) \<Rightarrow> cell list \<Rightarrow> bool" where
  "route step [] = False"
| "route step [c] = True"
| "route step (a # b # cs) = (step a b \<and> route step (b # cs))"

text \<open>
  The states at the head of the loop of \<open>findPath\<close>: the initial one, and
  the one that a pass of the loop body leaves when the selected node is not
  the finish cell.
\<close>

inductive reachable :: "grid \<Rightarrow> cell \<Rightarrow> solver_state \<Rightarrow> bool" for g finishCell where
  reachable_init: "reachable g finishCell (initialState g)"
| reachable_step:
    "reachable g finishCell s \<Longrightarrow> getLowestCostNodeKey (s_open s) = Some k \<Longrightarrow>
     map_of (s_open s) k = Some n \<Longrightarrow> k \<noteq> finishCell \<Longrightarrow>
     reachable g finishCell (expand finishCell k n s)"

text \<open>
  The grid of the specification's example: the 2 by 2 grid whose only open
  walls are those between (0,0) and (1,0) and between (1,0) and (1,1).
\<close>

definition exampleGrid :: grid where
  "exampleGrid =
     [((0, 0), \<lparr>top_wall = True, bottom_wall = True, left_wall = True, right_wall = False\<rparr>),
      ((0, 1), \<lparr>top_wall = True, bottom_wall = True, left_wall = True, right_wall = True\<rparr>),
      ((1, 0), \<lparr>top_wall = True, bottom_wall = False, left_wall = False, right_wall = True\<rparr>),
      ((1, 1), \<lparr>top_wall = False, bottom_wall = True, left_wall = True, right_wall = True\<rparr>)]"

definition exampleClosed :: nodes where
  "exampleClosed =
     [((0, 0), \<lparr>parent = (0, 0), moveCost = 0, distCost = 0, totalCost = 0\<rparr>),
      ((1, 0), \<lparr>parent = (0, 0), moveCost = 1, distCost = 1, totalCost = 2\<rparr>),
      ((1, 1), \<lparr>parent = (1, 0), moveCost = 2, distCost = 0, totalCost = 2\<rparr>)]"

text \<open>
  \<open>walk g n a b\<close>: the solver's moves lead from \<open>a\<close> to \<open>b\<close> in
  \<open>n\<close> steps.
\<close>

inductive walk :: "grid \<Rightarrow> nat \<Rightarrow> cell \<Rightarrow> cell \<Rightarrow> bool" for g where
  walk_refl: "walk g 0 a a"
| walk_step: "walk g n a b \<Longrightarrow> passable g b c \<Longrightarrow> walk g (Suc n) a c"

text \<open>
  What holds of every node the search keeps, relative to a closed set: the
  node of the start cell is the initial one; any other node carries the
  Manhattan distance of its cell to the finish cell as its heuristic cost,
  the sum as its total cost, and its parent is a closed cell from which
  its own cell is one move away and one step more expensive.
\<close>

definition node_ok :: "grid \<Rightarrow> cell \<Rightarrow> nodes \<Rightarrow> cell \<Rightarrow> search_node \<Rightarrow> bool" where
  "node_ok g finishCell closedNodes k n \<longleftrightarrow>
     (if k = (0, 0) then n = startNode
      else totalCost n = moveCost n + getHeuristicMeasure k finishCell \<and>
           distCost n = getHeuristicMeasure k finishCell \<and>
           (\<exists>pn. map_of closedNodes (parent n) = Some pn \<and> moveCost n = moveCost pn + 1 \<and>
                 0 \<le> moveCost pn \<and> passable g (parent n) k))"

text \<open>
  The invariant of the loop of \<open>findPath\<close>: the two objects have distinct
  keys and share none; the start cell is closed, or the search has not yet
  begun; every node kept is well formed; every move out of a closed cell
  leads to a closed cell or to an open one that costs at most one step
  more; and no walk from the start reaches a closed cell in fewer steps
  than its move cost.
\<close>

definition astar_inv :: "grid \<Rightarrow> cell \<Rightarrow> solver_state \<Rightarrow> bool" where
  "astar_inv g finishCell s \<longleftrightarrow>
     s_grid s = g \<and>
     distinct (map fst (s_open s)) \<and>
     distinct (map fst (s_closed s)) \<and>
     fst ` set (s_open s) \<inter> fst ` set (s_closed s) = {} \<and>
     ((0, 0) \<in> fst ` set (s_closed s) \<or>
        (s_open s = [((0, 0), startNode)] \<and> s_closed s = [])) \<and>
     (\<forall>k n. map_of (s_open s) k = Some n \<longrightarrow> node_ok g finishCell (s_closed s) k n) \<and>
     (\<forall>k n. map_of (s_closed s) k = Some n \<longrightarrow> node_ok g finishCell (s_closed s) k n) \<and>
     (\<forall>u un v. map_of (s_closed s) u = Some un \<longrightarrow> passable g u v \<longrightarrow>
        v \<in> fst ` set (s_closed s) \<or>
        (\<exists>vn. map_of (s_open s) v = Some vn \<and> moveCost vn \<le> moveCost un + 1)) \<and>
     (\<forall>u un m. map_of (s_closed s) u = Some un \<longrightarrow> walk g m (0, 0) u \<longrightarrow> moveCost un \<le> int m)"

text \<open>
  The 2 by 2 grid in which all four passages between neighbouring cells are
  open.
\<close>

definition ringGrid :: grid where
  "ringGrid =
     [((0, 0), \<lparr>top_wall = True, bottom_wall = False, left_wall = True, right_wall = False\<rparr>),
      ((0, 1), \<lparr>top_wall = False, bottom_wall = True, left_wall = True, right_wall = False\<rparr>),
      ((1, 0), \<lparr>top_wall = True, bottom_wall = False, left_wall = False, right_wall = True\<rparr>),
      ((1, 1), \<lparr>top_wall = False, bottom_wall = True, left_wall = False, right_wall = True\<rparr>)]"

section \<open>Properties of the grid model\<close>

lemma side_cases: "d \<in> {TopSide, BottomSide, LeftSide, RightSide}"
  by (cases d) auto

lemma wall_symmetric_iff:
  "wall_symmetric g \<longleftrightarrow>
     (\<forall>a d wa wb. map_of g a = Some wa \<longrightarrow> map_of g (neighbour a d) = Some wb \<longrightarrow>
        has_wall wa d = has_wall wb (opposite d))"
proof
  assume s: "wall_symmetric g"
  show "\<forall>a d wa wb. map_of g a = Some wa \<longrightarrow> map_of g (neighbour a d) = Some wb \<longrightarrow>
        has_wall wa d = has_wall wb (opposite d)"
  proof (intro allI impI)
    fix a d wa wb
    assume a: "map_of g a = Some wa" and b: "map_of g (neighbour a d) = Some wb"
    have "a \<in> fst ` set g" using a by (rule map_of_keys)
    with s side_cases[of d] have
      "case map_of g a of None \<Rightarrow> True
       | Some wa \<Rightarrow> (case map_of g (neighbour a d) of None \<Rightarrow> True
                    | Some wb \<Rightarrow> has_wall wa d = has_wall wb (opposite d))"
      unfolding wall_symmetric_def by blast
    then show "has_wall wa d = has_wall wb (opposite d)"
      using a b by simp
  qed
next
  assume H: "\<forall>a d wa wb. map_of g a = Some wa \<longrightarrow> map_of g (neighbour a d) = Some wb \<longrightarrow>
        has_wall wa d = has_wall wb (opposite d)"
  have "case map_of g a of None \<Rightarrow> True
       | Some wa \<Rightarrow> (case map_of g (neighbour a d) of None \<Rightarrow> True
                    | Some wb \<Rightarrow> has_wall wa d = has_wall wb (opposite d))" for a d
  proof (cases "map_of g a")
    case None
    then show ?thesis by simp
  next
    case A: (Some wa)
    show ?thesis
    proof (cases "map_of g (neighbour a d)")
      case None
      with A show ?thesis by simp
    next
      case B: (Some wb)
      from H A B have "has_wall wa d = has_wall wb (opposite d)" by blast
      with A B show ?thesis by simp
    qed
  qed
  then show "wall_symmetric g"
    unfolding wall_symmetric_def by blast
qed

lemma has_wall_clear: "has_wall (clear_wall s ws) d = (if d = s then False else has_wall ws d)"
  by (cases s; cases d) auto

lemma directionDictionary_Some:
  "directionDictionary (fst b - fst a, snd b - snd a) = Some (w0, w1) \<longleftrightarrow>
     b = neighbour a w0 \<and> w1 = opposite w0"
  by (cases w0; cases w1; cases a; cases b) (auto simp: directionDictionary_def)

lemma neighbour_opposite: "neighbour (neighbour a d) (opposite d) = a"
  by (cases d) auto

lemma neighbour_neq: "neighbour a d \<noteq> a"
  by (cases d; cases a) auto

lemma neighbour_inj: "neighbour a d = neighbour a d' \<longleftrightarrow> d = d'"
  by (cases d; cases d'; cases a) auto

lemma neighbour_eq_iff: "neighbour c d = a \<longleftrightarrow> c = neighbour a (opposite d)"
  by (cases d; cases a; cases c) auto

lemma opposite_opposite: "opposite (opposite d) = d" by (cases d) auto
lemma opposite_eq_iff: "opposite d = e \<longleftrightarrow> d = opposite e" by (cases d; cases e) auto

lemma neighbour_cancel: "neighbour c d = neighbour a d \<longleftrightarrow> c = a"
  by (cases d; cases a; cases c) auto

lemma removeWall_lookup:
  assumes "removeWall g a b = Inr g'"
  shows "\<exists>w0. b = neighbour a w0 \<and> map_of g a \<noteq> None \<and> map_of g b \<noteq> None \<and>
    (\<forall>c. map_of g' c =
       map_option (\<lambda>ws. if c = a then clear_wall w0 ws
                         else if c = b then clear_wall (opposite w0) ws else ws) (map_of g c))"
proof -
  from assms obtain w0 w1 fw tw where
    dd: "directionDictionary (fst b - fst a, snd b - snd a) = Some (w0, w1)" and
    a: "map_of g a = Some fw" and
    b: "map_of (AList.update a (clear_wall w0 fw) g) b = Some tw" and
    g': "g' = AList.update b (clear_wall w1 tw) (AList.update a (clear_wall w0 fw) g)"
    unfolding removeWall_Inr by blast
  from dd have bn: "b = neighbour a w0" and w1: "w1 = opposite w0"
    by (simp_all add: directionDictionary_Some)
  have ab: "a \<noteq> b" using bn neighbour_neq[of a w0] by simp
  with b have b': "map_of g b = Some tw" by (simp add: AList.update_conv')
  have "map_of g' c =
       map_option (\<lambda>ws. if c = a then clear_wall w0 ws
                         else if c = b then clear_wall (opposite w0) ws else ws) (map_of g c)" for c
    using a b' ab by (cases "map_of g c") (auto simp: g' w1 AList.update_conv')
  with bn a b' show ?thesis by auto
qed

lemma removeWall_symmetric:
  assumes s: "wall_symmetric g" and r: "removeWall g a b = Inr g'"
  shows "wall_symmetric g'"
proof -
  from removeWall_lookup[OF r] obtain w0 where bn: "b = neighbour a w0" and
    m: "\<And>c. map_of g' c =
       map_option (\<lambda>ws. if c = a then clear_wall w0 ws
                         else if c = b then clear_wall (opposite w0) ws else ws) (map_of g c)"
    by blast
  have hw: "has_wall wc d = (has_wall oc d \<and> \<not> (c = a \<and> d = w0) \<and> \<not> (c = b \<and> d = opposite w0))"
    if "map_of g' c = Some wc" "map_of g c = Some oc" for c d wc oc
    using that bn neighbour_neq[of a w0] unfolding m[of c] by (auto simp: has_wall_clear split: if_splits)
  show ?thesis
    unfolding wall_symmetric_iff
  proof (intro allI impI)
    fix c d wc wn
    assume c: "map_of g' c = Some wc" and n: "map_of g' (neighbour c d) = Some wn"
    from c obtain oc where oc: "map_of g c = Some oc" unfolding m[of c] by auto
    from n obtain on where on: "map_of g (neighbour c d) = Some on" unfolding m[of "neighbour c d"] by auto
    have old: "has_wall oc d = has_wall on (opposite d)"
      using s oc on unfolding wall_symmetric_iff by blast
    have e1: "(c = a \<and> d = w0) \<longleftrightarrow> (neighbour c d = b \<and> opposite d = opposite w0)"
      unfolding bn by (cases d; cases w0; cases a; cases c) auto
    have e2: "(c = b \<and> d = opposite w0) \<longleftrightarrow> (neighbour c d = a \<and> opposite d = w0)"
      unfolding bn by (cases d; cases w0; cases a; cases c) auto
    show "has_wall wc d = has_wall wn (opposite d)"
      unfolding hw[OF c oc] hw[OF n on] old using e1 e2 by blast
  qed
qed

lemma populateGrid_inner:
  "map_of (foldl (\<lambda>g j. AList.update (i, int j) cw g) g [0..<n]) (x, y) =
     (if x = i \<and> 0 \<le> y \<and> y < int n then Some cw else map_of g (x, y))"
  by (induction n) (auto simp: AList.update_conv')

lemma populateGrid_outer:
  "map_of (foldl (\<lambda>g i. foldl (\<lambda>g j. AList.update (int i, int j) cw g) g [0..<n]) g [0..<m]) (x, y) =
     (if 0 \<le> x \<and> x < int m \<and> 0 \<le> y \<and> y < int n then Some cw else map_of g (x, y))"
  by (induction m) (auto simp: populateGrid_inner)

lemma populateGrid_lookup:
  "map_of (populateGrid h w) (x, y) =
     (if 0 \<le> x \<and> x < w \<and> 0 \<le> y \<and> y < h then Some closed_walls else None)"
  unfolding populateGrid_def populateGrid_outer by auto

lemma foldl_const: "foldl (\<lambda>g i. g) g xs = g"
  by (induction xs) auto

lemma populateGrid_empty: "w \<le> 0 \<or> h \<le> 0 \<Longrightarrow> populateGrid h w = []"
  by (auto simp: populateGrid_def foldl_const)

lemma populateGrid_distinct_inner:
  "distinct (map fst g) \<Longrightarrow> distinct (map fst (foldl (\<lambda>g j. AList.update (i, int j) cw g) g js))"
  by (induction js arbitrary: g) (auto simp: AList.distinct_update)

lemma populateGrid_distinct: "distinct (map fst (populateGrid h w))"
proof -
  have "distinct (map fst g) \<Longrightarrow>
        distinct (map fst (foldl (\<lambda>g i. foldl (\<lambda>g j. AList.update (int i, int j) cw g) g js) g is))"
    for g :: grid and cw js "is"
    by (induction "is" arbitrary: g) (auto simp: populateGrid_distinct_inner)
  then show ?thesis unfolding populateGrid_def by simp
qed

text \<open>
  Claim C4, as the code has it. \<open>populateGrid\<close> checks nothing and never
  fails: with a width or a height that is not positive it returns the
  empty grid. For every width and height the grid holds exactly the cells
  \<open>(x, y)\<close> with \<open>0 \<le> x < width\<close> and \<open>0 \<le> y < height\<close>, each
  with all four walls closed.
\<close>

theorem populateGrid_cells:
  "map_of (populateGrid height width) (x, y) =
     (if 0 \<le> x \<and> x < width \<and> 0 \<le> y \<and> y < height then Some closed_walls else None) \<and>
   (width \<le> 0 \<or> height \<le> 0 \<longrightarrow> populateGrid height width = [])"
  using populateGrid_lookup populateGrid_empty by simp

theorem populateGrid_cells_witness:
  "map_of (populateGrid 2 3) (2, 1) = Some closed_walls \<and>
   map_of (populateGrid 2 3) (3, 1) = None \<and>
   ((0::int) \<le> 0 \<or> (3::int) \<le> 0) \<and> populateGrid 3 0 = []"
  using populateGrid_cells[of 2 3 2 1] populateGrid_cells[of 2 3 3 1] populateGrid_cells[of 3 0 0 0]
  by simp

text \<open>
  The claim as the specification words it (creation fails on a dimension
  that is not positive) does not hold: both calls below return a grid, the
  empty one.
\<close>

theorem populateGrid_nonpositive_counterexample:
  "populateGrid 3 0 = [] \<and> populateGrid 0 3 = []"
  by code_simp

lemma adjacent4_iff: "adjacent4 a b \<longleftrightarrow> (\<exists>d. b = neighbour a d)"
proof
  assume "adjacent4 a b"
  then have "b = neighbour a TopSide \<or> b = neighbour a BottomSide \<or>
             b = neighbour a LeftSide \<or> b = neighbour a RightSide"
    by (cases a; cases b) (auto simp: adjacent4_def)
  then show "\<exists>d. b = neighbour a d" by blast
next
  assume "\<exists>d. b = neighbour a d"
  then obtain d where "b = neighbour a d" ..
  then show "adjacent4 a b" by (cases d) (auto simp: adjacent4_def)
qed

lemma removeWall_succeeds:
  assumes "map_of g a \<noteq> None" and "map_of g (neighbour a d) \<noteq> None"
  shows "\<exists>g'. removeWall g a (neighbour a d) = Inr g'"
proof -
  obtain fw where a: "map_of g a = Some fw" using assms by auto
  have dd: "directionDictionary (fst (neighbour a d) - fst a, snd (neighbour a d) - snd a) = Some (d, opposite d)"
    by (simp add: directionDictionary_Some)
  have "map_of (AList.update a (clear_wall d fw) g) (neighbour a d) \<noteq> None"
    using assms(2) by (simp add: AList.update_conv')
  then obtain tw where "map_of (AList.update a (clear_wall d fw) g) (neighbour a d) = Some tw" by auto
  with a dd show ?thesis unfolding removeWall_Inr by blast
qed

lemma validNeighbours_adjacent:
  "nb \<in> set (validNeighbours current g visited) \<Longrightarrow> (\<exists>d. nb = neighbour current d) \<and> map_of g nb \<noteq> None"
proof -
  assume "nb \<in> set (validNeighbours current g visited)"
  then have "nb \<in> {neighbour current RightSide, neighbour current LeftSide,
                   neighbour current BottomSide, neighbour current TopSide} \<and> map_of g nb \<noteq> None"
    unfolding validNeighbours_def set_filter by auto
  then show ?thesis by blast
qed

lemma getRandomNeighbour_adjacent:
  assumes "getRandomNeighbour r current g visited = Some nb"
  shows "\<exists>d. nb = neighbour current d"
proof -
  let ?vs = "validNeighbours current g visited"
  from assms have ne: "?vs \<noteq> []" and nb: "nb = ?vs ! (r mod length ?vs)"
    by (auto simp: getRandomNeighbour_def Let_def split: if_splits)
  then have "nb \<in> set ?vs" by simp
  then show ?thesis using validNeighbours_adjacent by blast
qed

lemma generateMaze_loop_symmetric:
  "wall_symmetric g \<Longrightarrow> set stack \<subseteq> fst ` set g \<Longrightarrow>
     \<exists>g'. generateMaze_loop rnd i g stack visited = Inr g' \<and> wall_symmetric g' \<and>
          fst ` set g' = fst ` set g"
proof (induction rnd i g stack visited rule: generateMaze_loop.induct)
  case (1 rnd i g visited)
  then show ?case by simp
next
  case (2 rnd i g current stack visited)
  show ?case
  proof (cases "getRandomNeighbour (rnd i) current g visited")
    case None
    with 2 show ?thesis by simp
  next
    case (Some nb)
    have nbk: "nb \<in> fst ` set g" using Some getRandomNeighbour_valid by blast
    obtain d where d: "nb = neighbour current d" using Some getRandomNeighbour_adjacent by blast
    have "map_of g current \<noteq> None" using 2(4) by (simp add: map_of_eq_None_iff)
    moreover have "map_of g nb \<noteq> None" using nbk by (simp add: map_of_eq_None_iff)
    ultimately obtain g1 where g1: "removeWall g current nb = Inr g1"
      using removeWall_succeeds d by blast
    have s1: "wall_symmetric g1" using 2(3) g1 by (rule removeWall_symmetric)
    have k1: "fst ` set g1 = fst ` set g" using g1 by (rule removeWall_keys)
    have "set (nb # current # stack) \<subseteq> fst ` set g1" using 2(4) nbk k1 by simp
    from 2(2)[OF Some g1 s1 this] k1 Some g1 show ?thesis by simp
  qed
qed

lemma populateGrid_lookup_Some:
  "map_of (populateGrid h w) c = Some ws \<Longrightarrow> ws = closed_walls"
  by (cases c) (simp add: populateGrid_lookup split: if_splits)

lemma has_wall_closed: "has_wall closed_walls d"
  by (cases d) (simp_all add: closed_walls_def)

lemma wall_symmetric_populateGrid: "wall_symmetric (populateGrid h w)"
  unfolding wall_symmetric_iff
  using populateGrid_lookup_Some has_wall_closed by blast

lemma generateMaze_Nil: "generateMaze rnd [] = Inr []"
  by (simp add: generateMaze_def getRandomNeighbour_def validNeighbours_def)

lemma generateMaze_populateGrid:
  "\<exists>g'. generateMaze rnd (populateGrid h w) = Inr g' \<and> wall_symmetric g'"
proof (cases "0 < w \<and> 0 < h")
  case True
  then have "map_of (populateGrid h w) (0, 0) \<noteq> None" by (simp add: populateGrid_lookup)
  then have "set [(0, 0)] \<subseteq> fst ` set (populateGrid h w)" by (simp add: map_of_eq_None_iff)
  from generateMaze_loop_symmetric[OF wall_symmetric_populateGrid this]
  show ?thesis unfolding generateMaze_def by blast
next
  case False
  then have "populateGrid h w = []" by (auto intro: populateGrid_empty)
  then show ?thesis using generateMaze_Nil by (simp add: wall_symmetric_def)
qed

text \<open>
  Claim C3. Removing the wall between two 4-adjacent cells of a symmetric
  grid succeeds and leaves the grid symmetric; and for every sequence of
  random draws, \<open>generateMaze\<close> on the grid that \<open>populateGrid\<close>
  builds returns normally with a symmetric grid.
\<close>

theorem wall_symmetry_preserved:
  "(wall_symmetric g \<and> adjacent4 a b \<and> a \<in> fst ` set g \<and> b \<in> fst ` set g \<longrightarrow>
      (\<exists>g'. removeWall g a b = Inr g' \<and> wall_symmetric g')) \<and>
   (\<exists>g'. generateMaze rnd (populateGrid height width) = Inr g' \<and> wall_symmetric g')"
proof (intro conjI impI)
  assume h: "wall_symmetric g \<and> adjacent4 a b \<and> a \<in> fst ` set g \<and> b \<in> fst ` set g"
  then obtain d where d: "b = neighbour a d" unfolding adjacent4_iff by blast
  from h have "map_of g a \<noteq> None" "map_of g b \<noteq> None" by (simp_all add: map_of_eq_None_iff)
  then obtain g' where "removeWall g a b = Inr g'" using removeWall_succeeds d by blast
  with h removeWall_symmetric show "\<exists>g'. removeWall g a b = Inr g' \<and> wall_symmetric g'" by blast
next
  show "\<exists>g'. generateMaze rnd (populateGrid height width) = Inr g' \<and> wall_symmetric g'"
    by (rule generateMaze_populateGrid)
qed

theorem wall_symmetry_preserved_witness:
  "wall_symmetric (populateGrid 2 2) \<and> adjacent4 (0, 0) (1, 0) \<and>
   (0, 0) \<in> fst ` set (populateGrid 2 2) \<and> (1, 0) \<in> fst ` set (populateGrid 2 2) \<and>
   (\<exists>g'. removeWall (populateGrid 2 2) (0, 0) (1, 0) = Inr g' \<and> wall_symmetric g') \<and>
   (\<exists>g'. generateMaze (\<lambda>i. 0) (populateGrid 2 2) = Inr g' \<and> wall_symmetric g')"
proof -
  have h: "wall_symmetric (populateGrid 2 2) \<and> adjacent4 (0, 0) (1, 0) \<and>
    (0, 0) \<in> fst ` set (populateGrid 2 2) \<and> (1, 0) \<in> fst ` set (populateGrid 2 2)"
    by code_simp
  from wall_symmetry_preserved[of "populateGrid 2 2" "(0, 0)" "(1, 0)" "\<lambda>i. 0" 2 2] h
  show ?thesis by blast
qed

text \<open>
  Claim C1 fails on the code. The visited set of \<open>generateMaze\<close> starts
  as the characters of the text \<open>0,0\<close>, not as the key of the start cell,
  so the start cell counts as unvisited until a neighbour picks it. On the
  2 by 2 grid with the draws 1, 0, 0, 0 the walk goes
  (0,0), (0,1), (1,1), (1,0) and then opens the wall from (1,0) back to
  (0,0): the four cells end with four passages, a cycle, where a spanning
  tree has three, and two different routes of open passages lead from (0,0)
  to (1,1).
\<close>

theorem generateMaze_cycle_2x2:
  "(case generateMaze (\<lambda>i. if i = 0 then 1 else 0) (populateGrid 2 2) of
      Inl e \<Rightarrow> False
    | Inr g' \<Rightarrow>
        map fst g' = [(0, 0), (0, 1), (1, 0), (1, 1)] \<and>
        passage_edges g' =
          [((0, 0), (1, 0)), ((0, 0), (0, 1)), ((0, 1), (1, 1)), ((1, 0), (1, 1))] \<and>
        route (spec_step g') [(0, 0), (1, 0), (1, 1)] \<and>
        route (spec_step g') [(0, 0), (0, 1), (1, 1)])"
  by code_simp

section \<open>Properties of the path solver\<close>

text \<open>
  Claim C8. The example grid is the one that two calls of \<open>removeWall\<close>
  make of the fully walled 2 by 2 grid. On it \<open>findPath\<close> returns the
  closed set below with the goal (1,1); the walk over the parent links from
  the goal visits (1,1), (1,0), (0,0), which read backwards is the path
  (0,0), (1,0), (1,1); and the node of the goal has move cost 2.
\<close>

theorem findPath_example_2x2:
  "(case removeWall (populateGrid 2 2) (0, 0) (1, 0) of
      Inl e \<Rightarrow> Inl e
    | Inr g \<Rightarrow> removeWall g (1, 0) (1, 1)) = Inr exampleGrid \<and>
   findPath exampleGrid 2 2 = Inr (Some (exampleClosed, (1, 1))) \<and>
   drawFoundPath exampleClosed (1, 1) = Some (Inr [(1, 1), (1, 0), (0, 0)]) \<and>
   map_option moveCost (map_of exampleClosed (1, 1)) = Some 2"
proof (intro conjI)
  show "(case removeWall (populateGrid 2 2) (0, 0) (1, 0) of
      Inl e \<Rightarrow> Inl e
    | Inr g \<Rightarrow> removeWall g (1, 0) (1, 1)) = Inr exampleGrid"
    by code_simp
  show "findPath exampleGrid 2 2 = Inr (Some (exampleClosed, (1, 1)))"
    by code_simp
  show "drawFoundPath exampleClosed (1, 1) = Some (Inr [(1, 1), (1, 0), (0, 0)])"
    by (simp add: drawFoundPath.simps exampleClosed_def)
  show "map_option moveCost (map_of exampleClosed (1, 1)) = Some 2"
    by (simp add: exampleClosed_def)
qed

lemma findPath_loop_grid: "s_grid (snd (findPath_loop fin s)) = s_grid s"
proof (induction fin s rule: findPath_loop.induct)
  case (1 fin s)
  show ?case
  proof (cases "s_open s = []")
    case True
    then show ?thesis by (simp add: findPath_loop.simps)
  next
    case ne: False
    show ?thesis
    proof (cases "getLowestCostNodeKey (s_open s)")
      case None
      with ne show ?thesis by (simp add: findPath_loop.simps[of fin s])
    next
      case k: (Some minKey)
      show ?thesis
      proof (cases "map_of (s_open s) minKey")
        case None
        with ne k show ?thesis by (simp add: findPath_loop.simps[of fin s])
      next
        case n: (Some current)
        show ?thesis
        proof (cases "minKey = fin")
          case True
          with ne k n show ?thesis by (simp add: findPath_loop.simps[of fin s] Let_def)
        next
          case False
          from "1.IH"[OF ne k n False] ne k n False show ?thesis
            by (simp add: findPath_loop.simps[of fin s] expand_keys)
        qed
      qed
    qed
  qed
qed

text \<open>
  Claim C9. The grid in the state that a call of \<open>findPath\<close> ends with,
  whatever it returns, is the grid the call was given: no pass of the loop
  writes it.
\<close>

theorem findPath_grid_unchanged:
  "s_grid (snd (findPath_run g gridWidth gridHeight)) = g"
  unfolding findPath_run_def findPath_loop_grid by (simp add: initialState_def)

lemma getViableNeighbours_iff:
  "b \<in> set (getViableNeighbours g a closedNodes) \<longleftrightarrow>
     (\<exists>d ws. b = neighbour a d \<and> map_of g b = Some ws \<and> \<not> has_wall ws (opposite d) \<and>
             map_of closedNodes b = None)"
proof
  assume "b \<in> set (getViableNeighbours g a closedNodes)"
  then consider
      "b = neighbour a TopSide" "\<exists>ws. map_of g b = Some ws \<and> \<not> has_wall ws BottomSide" "map_of closedNodes b = None"
    | "b = neighbour a BottomSide" "\<exists>ws. map_of g b = Some ws \<and> \<not> has_wall ws TopSide" "map_of closedNodes b = None"
    | "b = neighbour a LeftSide" "\<exists>ws. map_of g b = Some ws \<and> \<not> has_wall ws RightSide" "map_of closedNodes b = None"
    | "b = neighbour a RightSide" "\<exists>ws. map_of g b = Some ws \<and> \<not> has_wall ws LeftSide" "map_of closedNodes b = None"
    by (auto simp: getViableNeighbours_def Let_def split: if_splits option.splits)
  then show "\<exists>d ws. b = neighbour a d \<and> map_of g b = Some ws \<and> \<not> has_wall ws (opposite d) \<and>
             map_of closedNodes b = None"
    by cases (metis opposite.simps)+
next
  assume "\<exists>d ws. b = neighbour a d \<and> map_of g b = Some ws \<and> \<not> has_wall ws (opposite d) \<and>
             map_of closedNodes b = None"
  then obtain d ws where "b = neighbour a d" "map_of g b = Some ws" "\<not> has_wall ws (opposite d)"
    "map_of closedNodes b = None" by blast
  then show "b \<in> set (getViableNeighbours g a closedNodes)"
    by (cases d) (auto simp: getViableNeighbours_def Let_def)
qed

lemma passable_iff:
  "passable g a b \<longleftrightarrow>
     (\<exists>d ws. b = neighbour a d \<and> map_of g b = Some ws \<and> \<not> has_wall ws (opposite d))"
  unfolding passable_def getViableNeighbours_iff by simp

lemma getViableNeighbours_passable:
  "b \<in> set (getViableNeighbours g a closedNodes) \<longleftrightarrow> passable g a b \<and> map_of closedNodes b = None"
  unfolding passable_iff getViableNeighbours_iff by blast

lemma getViableNeighbours_own_walls:
  "getViableNeighbours (AList.update c ws g) c closedNodes = getViableNeighbours g c closedNodes"
  by (cases c) (simp add: getViableNeighbours_def Let_def AList.update_conv')

lemma spec_is_open_iff:
  "spec_is_open g c d \<longleftrightarrow>
     (\<exists>wc wn. map_of g c = Some wc \<and> map_of g (neighbour c d) = Some wn \<and> \<not> has_wall wc d)"
  by (auto simp: spec_is_open_def split: option.splits)

lemma neighbour_passable_iff:
  "passable g c (neighbour c d) \<longleftrightarrow>
     (\<exists>ws. map_of g (neighbour c d) = Some ws \<and> \<not> has_wall ws (opposite d))"
  unfolding passable_iff by (auto simp: neighbour_inj)

lemma wall_symmetricD:
  "wall_symmetric g \<Longrightarrow> map_of g a = Some wa \<Longrightarrow> map_of g (neighbour a d) = Some wb \<Longrightarrow>
     has_wall wa d = has_wall wb (opposite d)"
  unfolding wall_symmetric_iff by blast

lemma symmetric_agrees:
  "wall_symmetric g \<longleftrightarrow>
     (\<forall>c \<in> fst ` set g. \<forall>d. passable g c (neighbour c d) = spec_is_open g c d)"
proof
  assume s: "wall_symmetric g"
  show "\<forall>c \<in> fst ` set g. \<forall>d. passable g c (neighbour c d) = spec_is_open g c d"
  proof (intro ballI allI)
    fix c d
    assume "c \<in> fst ` set g"
    then obtain wc where wc: "map_of g c = Some wc"
      by (metis map_of_eq_None_iff not_Some_eq)
    show "passable g c (neighbour c d) = spec_is_open g c d"
    proof (cases "map_of g (neighbour c d)")
      case None
      then show ?thesis unfolding neighbour_passable_iff spec_is_open_iff by simp
    next
      case (Some wn)
      with s wc have "has_wall wc d = has_wall wn (opposite d)" by (rule wall_symmetricD)
      then show ?thesis unfolding neighbour_passable_iff spec_is_open_iff using wc Some by simp
    qed
  qed
next
  assume a: "\<forall>c \<in> fst ` set g. \<forall>d. passable g c (neighbour c d) = spec_is_open g c d"
  show "wall_symmetric g"
    unfolding wall_symmetric_iff
  proof (intro allI impI)
    fix c d wc wn
    assume wc: "map_of g c = Some wc" and wn: "map_of g (neighbour c d) = Some wn"
    have "c \<in> fst ` set g" using wc by (rule map_of_keys)
    with a have "passable g c (neighbour c d) = spec_is_open g c d" by blast
    then show "has_wall wc d = has_wall wn (opposite d)"
      unfolding neighbour_passable_iff spec_is_open_iff using wc wn by simp
  qed
qed

text \<open>
  Claim C10. A neighbour on side \<open>d\<close> of the current cell is viable
  exactly when the grid holds it, its wall facing back is open and it is not
  in the closed set (for the right neighbour: its left wall); nothing but
  the four neighbours is ever viable; the walls of the current cell itself
  do not matter, since replacing them changes nothing; and the test agrees
  with \<open>is_open\<close> of the specification on all cells of a grid exactly
  when the grid is wall-symmetric.
\<close>

theorem getViableNeighbours_reads_neighbour_wall:
  "(neighbour c d \<in> set (getViableNeighbours g c closedNodes) \<longleftrightarrow>
      (\<exists>ws. map_of g (neighbour c d) = Some ws \<and> \<not> has_wall ws (opposite d)) \<and>
      map_of closedNodes (neighbour c d) = None) \<and>
   ((x + 1, y) \<in> set (getViableNeighbours g (x, y) closedNodes) \<longleftrightarrow>
      (\<exists>ws. map_of g (x + 1, y) = Some ws \<and> \<not> left_wall ws) \<and>
      map_of closedNodes (x + 1, y) = None) \<and>
   set (getViableNeighbours g c closedNodes) \<subseteq> neighbour c ` {TopSide, BottomSide, LeftSide, RightSide} \<and>
   getViableNeighbours (AList.update c ws' g) c closedNodes = getViableNeighbours g c closedNodes \<and>
   (wall_symmetric g \<longleftrightarrow>
      (\<forall>a \<in> fst ` set g. \<forall>s. (neighbour a s \<in> set (getViableNeighbours g a [])) = spec_is_open g a s))"
proof (intro conjI)
  show 1: "neighbour c d \<in> set (getViableNeighbours g c closedNodes) \<longleftrightarrow>
      (\<exists>ws. map_of g (neighbour c d) = Some ws \<and> \<not> has_wall ws (opposite d)) \<and>
      map_of closedNodes (neighbour c d) = None" for c d
    unfolding getViableNeighbours_passable neighbour_passable_iff ..
  show "(x + 1, y) \<in> set (getViableNeighbours g (x, y) closedNodes) \<longleftrightarrow>
      (\<exists>ws. map_of g (x + 1, y) = Some ws \<and> \<not> left_wall ws) \<and>
      map_of closedNodes (x + 1, y) = None"
    using 1[of "(x, y)" RightSide] by simp
  show "set (getViableNeighbours g c closedNodes) \<subseteq> neighbour c ` {TopSide, BottomSide, LeftSide, RightSide}"
  proof
    fix b
    assume "b \<in> set (getViableNeighbours g c closedNodes)"
    then obtain e where "b = neighbour c e" unfolding getViableNeighbours_iff by blast
    then show "b \<in> neighbour c ` {TopSide, BottomSide, LeftSide, RightSide}"
      using side_cases[of e] by (rule image_eqI)
  qed
  show "getViableNeighbours (AList.update c ws' g) c closedNodes = getViableNeighbours g c closedNodes"
    by (rule getViableNeighbours_own_walls)
  show "wall_symmetric g \<longleftrightarrow>
      (\<forall>a \<in> fst ` set g. \<forall>s. (neighbour a s \<in> set (getViableNeighbours g a [])) = spec_is_open g a s)"
    using symmetric_agrees unfolding passable_def .
qed

theorem getViableNeighbours_reads_neighbour_wall_witness:
  "(1, 0) \<in> set (getViableNeighbours
       [((0, 0), closed_walls), ((1, 0), closed_walls\<lparr>left_wall := False\<rparr>)] (0, 0) []) \<and>
   \<not> spec_is_open [((0, 0), closed_walls), ((1, 0), closed_walls\<lparr>left_wall := False\<rparr>)]
       (0, 0) RightSide \<and>
   \<not> wall_symmetric [((0, 0), closed_walls), ((1, 0), closed_walls\<lparr>left_wall := False\<rparr>)]"
proof -
  let ?g = "[((0, 0), closed_walls), ((1, 0), closed_walls\<lparr>left_wall := False\<rparr>)]"
  have a: "(1, 0) \<in> set (getViableNeighbours ?g (0, 0) [])"
    using getViableNeighbours_reads_neighbour_wall[of "(0, 0)" RightSide ?g "[]" 0 0 closed_walls]
    by (simp add: closed_walls_def)
  have b: "\<not> spec_is_open ?g (0, 0) RightSide"
    by (simp add: spec_is_open_def closed_walls_def)
  have c: "(0, 0) \<in> fst ` set ?g" by simp
  have "\<not> wall_symmetric ?g"
  proof
    assume "wall_symmetric ?g"
    then have "\<forall>a \<in> fst ` set ?g. \<forall>s. (neighbour a s \<in> set (getViableNeighbours ?g a [])) = spec_is_open ?g a s"
      using getViableNeighbours_reads_neighbour_wall[of "(0, 0)" RightSide ?g "[]" 0 0 closed_walls]
      by blast
    with c have "(neighbour (0, 0) RightSide \<in> set (getViableNeighbours ?g (0, 0) [])) = spec_is_open ?g (0, 0) RightSide"
      by blast
    with a b show False by simp
  qed
  with a b show ?thesis by blast
qed

lemma considerNeighbour_lookup:
  "map_of (considerNeighbour k n fin al nb) v =
     (if v = nb then
        (case map_of al nb of
           None \<Rightarrow> Some (neighbourNode k n fin nb)
         | Some held \<Rightarrow>
             if totalCost held > totalCost (neighbourNode k n fin nb)
             then Some (neighbourNode k n fin nb) else Some held)
      else map_of al v)"
  by (simp add: considerNeighbour_def Let_def AList.update_conv' split: option.split)

lemma considerNeighbour_fold_lookup:
  "map_of (foldl (considerNeighbour k n fin) al nbs) v =
     (if v \<in> set nbs then
        (case map_of al v of
           None \<Rightarrow> Some (neighbourNode k n fin v)
         | Some held \<Rightarrow>
             if totalCost held > totalCost (neighbourNode k n fin v)
             then Some (neighbourNode k n fin v) else Some held)
      else map_of al v)"
proof (induction nbs arbitrary: al)
  case Nil
  then show ?case by simp
next
  case (Cons x xs)
  show ?case
    unfolding foldl_Cons Cons.IH considerNeighbour_lookup
    by (simp split: option.split)
qed

lemma considerNeighbour_distinct:
  "distinct (map fst al) \<Longrightarrow> distinct (map fst (considerNeighbour k n fin al nb))"
  by (simp add: considerNeighbour_def Let_def AList.distinct_update split: option.split)

lemma considerNeighbour_fold_distinct:
  "distinct (map fst al) \<Longrightarrow> distinct (map fst (foldl (considerNeighbour k n fin) al nbs))"
  by (induction nbs arbitrary: al) (simp_all add: considerNeighbour_distinct)

lemma expand_open_lookup:
  "map_of (s_open (expand fin k n s)) v =
     (if v = k then None
      else if v \<in> set (getViableNeighbours (s_grid s) k (s_closed s)) then
        (case map_of (s_open s) v of
           None \<Rightarrow> Some (neighbourNode k n fin v)
         | Some held \<Rightarrow>
             if totalCost held > totalCost (neighbourNode k n fin v)
             then Some (neighbourNode k n fin v) else Some held)
      else map_of (s_open s) v)"
  by (simp add: expand_def AList.delete_conv' considerNeighbour_fold_lookup)

lemma expand_closed_lookup:
  "map_of (s_closed (expand fin k n s)) = (map_of (s_closed s))(k \<mapsto> n)"
  by (simp add: expand_def AList.update_conv')

lemma expand_distinct:
  "distinct (map fst (s_open s)) \<Longrightarrow> distinct (map fst (s_open (expand fin k n s)))"
  "distinct (map fst (s_closed s)) \<Longrightarrow> distinct (map fst (s_closed (expand fin k n s)))"
  by (simp_all add: expand_def AList.distinct_delete AList.distinct_update considerNeighbour_fold_distinct)

lemma getLowestCostNodeKey_take:
  assumes d: "distinct (map fst al)" and n: "n < length al"
  shows "\<exists>i \<le> n.
     foldl (\<lambda>minEntry (key, val).
              case minEntry of
                None \<Rightarrow> None
              | Some m \<Rightarrow>
                  (case map_of al m of
                     None \<Rightarrow> None
                   | Some held \<Rightarrow> Some (if totalCost val < totalCost held then key else m)))
       (Some (fst (al ! 0))) (take (Suc n) al) = Some (fst (al ! i)) \<and>
     (\<forall>j \<le> n. totalCost (snd (al ! i)) \<le> totalCost (snd (al ! j))) \<and>
     (\<forall>j < i. totalCost (snd (al ! i)) < totalCost (snd (al ! j)))"
  using n
proof (induction n)
  case 0
  then have "take (Suc 0) al = [al ! 0]" by (cases al) simp_all
  moreover have "map_of al (fst (al ! 0)) = Some (snd (al ! 0))"
    using d 0 by (simp add: map_of_eq_Some_iff[OF d])
  ultimately show ?case by (cases "al ! 0") auto
next
  case (Suc n)
  then obtain i where i: "i \<le> n" and
    f: "foldl (\<lambda>minEntry (key, val).
              case minEntry of
                None \<Rightarrow> None
              | Some m \<Rightarrow>
                  (case map_of al m of
                     None \<Rightarrow> None
                   | Some held \<Rightarrow> Some (if totalCost val < totalCost held then key else m)))
       (Some (fst (al ! 0))) (take (Suc n) al) = Some (fst (al ! i))" and
    le: "\<forall>j \<le> n. totalCost (snd (al ! i)) \<le> totalCost (snd (al ! j))" and
    lt: "\<forall>j < i. totalCost (snd (al ! i)) < totalCost (snd (al ! j))"
    by auto
  have t: "take (Suc (Suc n)) al = take (Suc n) al @ [al ! Suc n]"
    using Suc.prems by (simp add: take_Suc_conv_app_nth)
  have li: "map_of al (fst (al ! i)) = Some (snd (al ! i))"
    using i Suc.prems by (simp add: map_of_eq_Some_iff[OF d])
  show ?case
  proof (cases "totalCost (snd (al ! Suc n)) < totalCost (snd (al ! i))")
    case True
    have "\<forall>j \<le> Suc n. totalCost (snd (al ! Suc n)) \<le> totalCost (snd (al ! j))"
      using le True by (auto simp: le_Suc_eq)
    moreover have "\<forall>j < Suc n. totalCost (snd (al ! Suc n)) < totalCost (snd (al ! j))"
      using le True by (auto simp: less_Suc_eq_le)
    ultimately show ?thesis
      unfolding t foldl_append f using li True
      by (intro exI[of _ "Suc n"]) (cases "al ! Suc n", simp)
  next
    case False
    have "\<forall>j \<le> Suc n. totalCost (snd (al ! i)) \<le> totalCost (snd (al ! j))"
      using le False by (auto simp: le_Suc_eq)
    then show ?thesis
      unfolding t foldl_append f using li False lt i
      by (intro exI[of _ i]) (cases "al ! Suc n", simp)
  qed
qed

lemma getLowestCostNodeKey_first_min:
  assumes d: "distinct (map fst al)" and ne: "al \<noteq> []"
  shows "\<exists>i < length al. getLowestCostNodeKey al = Some (fst (al ! i)) \<and>
     (\<forall>j < length al. totalCost (snd (al ! i)) \<le> totalCost (snd (al ! j))) \<and>
     (\<forall>j < i. totalCost (snd (al ! i)) < totalCost (snd (al ! j)))"
proof -
  from ne obtain n where n: "length al = Suc n" by (cases al) auto
  then have "n < length al" by simp
  from getLowestCostNodeKey_take[OF d this] n ne show ?thesis
    unfolding getLowestCostNodeKey_def
    by (cases al) (auto simp: less_Suc_eq_le)
qed

lemma getLowestCostNodeKey_min:
  assumes d: "distinct (map fst al)" and m: "getLowestCostNodeKey al = Some m"
    and mn: "map_of al m = Some mn" and kn: "map_of al k = Some n"
  shows "totalCost mn \<le> totalCost n"
proof -
  have ne: "al \<noteq> []" using kn by auto
  from getLowestCostNodeKey_first_min[OF d ne] m obtain i where
    i: "i < length al" "m = fst (al ! i)" and
    le: "\<forall>j < length al. totalCost (snd (al ! i)) \<le> totalCost (snd (al ! j))" by auto
  have "map_of al (fst (al ! i)) = Some (snd (al ! i))"
    using i by (simp add: map_of_eq_Some_iff[OF d])
  with mn i have mn': "mn = snd (al ! i)" by simp
  from kn have "(k, n) \<in> set al" by (rule map_of_SomeD)
  then obtain j where "j < length al" "al ! j = (k, n)" by (auto simp: in_set_conv_nth)
  with le mn' show ?thesis by force
qed

lemma heuristic_neighbour:
  "getHeuristicMeasure a fin \<le> getHeuristicMeasure (neighbour a d) fin + 1"
  by (cases d; cases a) (auto simp: getHeuristicMeasure_def)

lemma heuristic_passable:
  "passable g a b \<Longrightarrow> getHeuristicMeasure a fin \<le> getHeuristicMeasure b fin + 1"
  unfolding passable_iff using heuristic_neighbour by blast

lemma heuristic_walk:
  "walk g n a b \<Longrightarrow> getHeuristicMeasure a fin \<le> getHeuristicMeasure b fin + int n"
proof (induction rule: walk.induct)
  case (walk_refl a)
  then show ?case by simp
next
  case (walk_step n a b c)
  from heuristic_passable[OF walk_step.hyps(2), of fin] walk_step.IH show ?case by simp
qed

lemma walk_crossing:
  "walk g n a b \<Longrightarrow> a \<in> S \<Longrightarrow> b \<notin> S \<Longrightarrow>
     \<exists>i x y j. walk g i a x \<and> x \<in> S \<and> passable g x y \<and> y \<notin> S \<and> walk g j y b \<and> n = i + 1 + j"
proof (induction rule: walk.induct)
  case (walk_refl a)
  then show ?case by simp
next
  case (walk_step n a b c)
  show ?case
  proof (cases "b \<in> S")
    case True
    have "walk g 0 c c" by (rule walk.walk_refl)
    with walk_step.hyps True walk_step.prems(2) show ?thesis
      by (intro exI[of _ n] exI[of _ b] exI[of _ c] exI[of _ 0]) simp
  next
    case False
    from walk_step.IH[OF walk_step.prems(1) False] obtain i x y j where
      h: "walk g i a x" "x \<in> S" "passable g x y" "y \<notin> S" "walk g j y b" "n = i + 1 + j"
      by blast
    have "walk g (Suc j) y c" using h(5) walk_step.hyps(2) by (rule walk.walk_step)
    with h show ?thesis
      by (intro exI[of _ i] exI[of _ x] exI[of _ y] exI[of _ "Suc j"]) simp
  qed
qed

lemma walk_prepend:
  "walk g n b c \<Longrightarrow> passable g a b \<Longrightarrow> walk g (Suc n) a c"
proof (induction rule: walk.induct)
  case (walk_refl b)
  have "walk g 0 a a" by (rule walk.walk_refl)
  then show ?case using walk_refl by (rule walk.walk_step)
next
  case (walk_step n b c e)
  from walk_step.IH[OF walk_step.prems] walk_step.hyps(2) show ?case by (rule walk.walk_step)
qed

lemma route_walk:
  "route (passable g) r \<Longrightarrow> walk g (length r - 1) (hd r) (last r)"
proof (induction "passable g" r rule: route.induct)
  case 1
  then show ?case by simp
next
  case (2 c)
  show ?case by (simp add: walk.walk_refl)
next
  case (3 a b cs)
  then have "walk g (length (b # cs) - 1) b (last (b # cs))" and "passable g a b" by simp_all
  then have "walk g (Suc (length (b # cs) - 1)) a (last (b # cs))" by (rule walk_prepend)
  then show ?case by simp
qed

lemma node_ok_moveCost: "node_ok g fin C k n \<Longrightarrow> 0 \<le> moveCost n"
  by (auto simp: node_ok_def startNode_def split: if_splits)

lemma astar_inv_init: "astar_inv g fin (initialState g)"
  by (simp add: astar_inv_def initialState_def node_ok_def)

lemma selected_optimal:
  assumes inv: "astar_inv g fin s"
    and m: "getLowestCostNodeKey (s_open s) = Some m"
    and mn: "map_of (s_open s) m = Some mn"
    and w: "walk g n (0, 0) m"
  shows "moveCost mn \<le> int n"
proof (cases "(0, 0) \<in> fst ` set (s_closed s)")
  case False
  with inv have "s_open s = [((0, 0), startNode)]" unfolding astar_inv_def by blast
  with mn have "mn = startNode" by (simp split: if_splits)
  then show ?thesis by (simp add: startNode_def)
next
  case True
  let ?C = "fst ` set (s_closed s)"
  have mO: "m \<in> fst ` set (s_open s)" using mn by (rule map_of_keys)
  with inv have mC: "m \<notin> ?C" unfolding astar_inv_def by blast
  from walk_crossing[OF w True mC] obtain i x y j where
    h: "walk g i (0, 0) x" "x \<in> ?C" "passable g x y" "y \<notin> ?C" "walk g j y m" "n = i + 1 + j"
    by blast
  from h(2) obtain xn where xn: "map_of (s_closed s) x = Some xn"
    by (metis map_of_eq_None_iff not_Some_eq)
  from inv xn h(1) have gx: "moveCost xn \<le> int i" unfolding astar_inv_def by blast
  from inv xn h(3) h(4) obtain yn where yn: "map_of (s_open s) y = Some yn"
    and gy: "moveCost yn \<le> moveCost xn + 1" unfolding astar_inv_def by blast
  have y0: "y \<noteq> (0, 0)" using True h(4) by blast
  have m0: "m \<noteq> (0, 0)" using True mC by blast
  from inv yn have "node_ok g fin (s_closed s) y yn" unfolding astar_inv_def by blast
  with y0 have ty: "totalCost yn = moveCost yn + getHeuristicMeasure y fin"
    by (simp add: node_ok_def)
  from inv mn have "node_ok g fin (s_closed s) m mn" unfolding astar_inv_def by blast
  with m0 have tm: "totalCost mn = moveCost mn + getHeuristicMeasure m fin"
    by (simp add: node_ok_def)
  from inv have d: "distinct (map fst (s_open s))" unfolding astar_inv_def by blast
  have le: "totalCost mn \<le> totalCost yn" using d m mn yn by (rule getLowestCostNodeKey_min)
  have hy: "getHeuristicMeasure y fin \<le> getHeuristicMeasure m fin + int j"
    using h(5) by (rule heuristic_walk)
  from le ty tm hy gy gx h(6) show ?thesis by simp
qed

lemma neighbourNode_fields:
  "parent (neighbourNode k n fin v) = k"
  "moveCost (neighbourNode k n fin v) = moveCost n + 1"
  "distCost (neighbourNode k n fin v) = getHeuristicMeasure v fin"
  "totalCost (neighbourNode k n fin v) = moveCost n + 1 + getHeuristicMeasure v fin"
  by (simp_all add: neighbourNode_def Let_def)

lemma expand_closed: "s_closed (expand fin k n s) = AList.update k n (s_closed s)"
  by (simp add: expand_def)

lemma node_ok_update:
  assumes ok: "node_ok g fin C k n" and x: "x \<notin> fst ` set C"
  shows "node_ok g fin (AList.update x xn C) k n"
proof (cases "k = (0, 0)")
  case True
  with ok show ?thesis by (simp add: node_ok_def)
next
  case False
  with ok obtain pn where pn: "map_of C (parent n) = Some pn" "moveCost n = moveCost pn + 1"
    "0 \<le> moveCost pn" "passable g (parent n) k"
    and t: "totalCost n = moveCost n + getHeuristicMeasure k fin"
      "distCost n = getHeuristicMeasure k fin"
    unfolding node_ok_def by auto
  have "parent n \<in> fst ` set C" using pn(1) by (rule map_of_keys)
  with x have "parent n \<noteq> x" by blast
  then have "map_of (AList.update x xn C) (parent n) = Some pn"
    using pn(1) by (simp add: AList.update_conv')
  with pn t False show ?thesis unfolding node_ok_def by auto
qed

lemma expand_open_cases:
  assumes "map_of (s_open (expand fin k n s)) v = Some vn"
  shows "v \<noteq> k \<and> (map_of (s_open s) v = Some vn \<or>
           (v \<in> set (getViableNeighbours (s_grid s) k (s_closed s)) \<and> vn = neighbourNode k n fin v))"
  using assms unfolding expand_open_lookup
  by (auto split: if_splits option.splits)

lemma expand_open_old:
  assumes "map_of (s_open s) v = Some vn" and "v \<noteq> k"
  shows "\<exists>vn'. map_of (s_open (expand fin k n s)) v = Some vn' \<and>
           (vn' = vn \<or> (vn' = neighbourNode k n fin v \<and> totalCost vn' < totalCost vn))"
  using assms unfolding expand_open_lookup by auto

lemma expand_open_new:
  assumes "v \<in> set (getViableNeighbours (s_grid s) k (s_closed s))" and "v \<noteq> k"
  shows "\<exists>vn'. map_of (s_open (expand fin k n s)) v = Some vn' \<and>
           (vn' = neighbourNode k n fin v \<or>
            (map_of (s_open s) v = Some vn' \<and> totalCost vn' \<le> totalCost (neighbourNode k n fin v)))"
  using assms unfolding expand_open_lookup by (auto split: option.splits)

lemma passable_neq: "passable g a b \<Longrightarrow> b \<noteq> a"
  unfolding passable_iff by (auto simp: neighbour_neq)

lemma astar_inv_expand:
  assumes inv: "astar_inv g fin s"
    and m: "getLowestCostNodeKey (s_open s) = Some m"
    and mn: "map_of (s_open s) m = Some mn"
  shows "astar_inv g fin (expand fin m mn s)"
proof -
  let ?s' = "expand fin m mn s"
  let ?O = "s_open s" and ?C = "s_closed s"
  let ?N = "set (getViableNeighbours g m ?C)"
  from inv have gr: "s_grid s = g" and dO: "distinct (map fst ?O)" and dC: "distinct (map fst ?C)"
    and disj: "fst ` set ?O \<inter> fst ` set ?C = {}"
    and st: "(0, 0) \<in> fst ` set ?C \<or> (?O = [((0, 0), startNode)] \<and> ?C = [])"
    and okO: "\<And>k n. map_of ?O k = Some n \<Longrightarrow> node_ok g fin ?C k n"
    and okC: "\<And>k n. map_of ?C k = Some n \<Longrightarrow> node_ok g fin ?C k n"
    and edge: "\<And>u un v. map_of ?C u = Some un \<Longrightarrow> passable g u v \<Longrightarrow>
        v \<in> fst ` set ?C \<or> (\<exists>vn. map_of ?O v = Some vn \<and> moveCost vn \<le> moveCost un + 1)"
    and opt: "\<And>u un k. map_of ?C u = Some un \<Longrightarrow> walk g k (0, 0) u \<Longrightarrow> moveCost un \<le> int k"
    unfolding astar_inv_def by blast+
  have mO: "m \<in> fst ` set ?O" using mn by (rule map_of_keys)
  with disj have mC: "m \<notin> fst ` set ?C" by blast
  have C': "s_closed ?s' = AList.update m mn ?C" by (rule expand_closed)
  have lC': "map_of (s_closed ?s') = (map_of ?C)(m \<mapsto> mn)" by (rule expand_closed_lookup)
  have kC': "fst ` set (s_closed ?s') = insert m (fst ` set ?C)" by (rule expand_keys)
  have N: "v \<in> ?N \<longleftrightarrow> passable g m v \<and> map_of ?C v = None" for v
    by (rule getViableNeighbours_passable)
  have Nm: "v \<noteq> m" if "v \<in> ?N" for v using that N passable_neq by blast
  have st': "(0, 0) \<in> fst ` set (s_closed ?s')"
  proof (cases "(0, 0) \<in> fst ` set ?C")
    case True
    then show ?thesis unfolding kC' by simp
  next
    case False
    with st mO have "m = (0, 0)" by auto
    then show ?thesis unfolding kC' by simp
  qed
  have N0: "v \<noteq> (0, 0)" if v: "v \<in> ?N" for v
  proof (cases "(0, 0) \<in> fst ` set ?C")
    case True
    then have "map_of ?C (0, 0) \<noteq> None" by (simp add: map_of_eq_None_iff)
    with v N show ?thesis by auto
  next
    case False
    with st mO have "m = (0, 0)" by auto
    with Nm[OF v] show ?thesis by simp
  qed
  have okm: "node_ok g fin ?C m mn" using mn by (rule okO)
  then have m0: "0 \<le> moveCost mn" by (rule node_ok_moveCost)
  have up: "node_ok g fin (s_closed ?s') k n" if "node_ok g fin ?C k n" for k n
    unfolding C' using that mC by (rule node_ok_update)
  have new: "node_ok g fin (s_closed ?s') v (neighbourNode m mn fin v)" if v: "v \<in> ?N" for v
    using N0[OF v] v m0 unfolding node_ok_def neighbourNode_fields lC' N by simp
  have okO': "node_ok g fin (s_closed ?s') k n" if "map_of (s_open ?s') k = Some n" for k n
    using expand_open_cases[OF that] up okO new unfolding gr by blast
  have okC': "node_ok g fin (s_closed ?s') k n" if "map_of (s_closed ?s') k = Some n" for k n
    using that up okm okC unfolding lC' by (auto split: if_splits)
  have tot: "totalCost n = moveCost n + getHeuristicMeasure k fin"
    if "node_ok g fin X k n" "k \<noteq> (0, 0)" for X k n
    using that by (simp add: node_ok_def)
  have edge': "v \<in> fst ` set (s_closed ?s') \<or>
        (\<exists>vn. map_of (s_open ?s') v = Some vn \<and> moveCost vn \<le> moveCost un + 1)"
    if u: "map_of (s_closed ?s') u = Some un" and p: "passable g u v" for u un v
  proof (cases "u = m")
    case True
    with u have un: "un = mn" unfolding lC' by simp
    show ?thesis
    proof (cases "v \<in> fst ` set ?C")
      case True
      then show ?thesis unfolding kC' by simp
    next
      case False
      then have vN: "v \<in> ?N" using p \<open>u = m\<close> unfolding N by (simp add: map_of_eq_None_iff)
      from expand_open_new[of v s m fin mn, unfolded gr, OF vN Nm[OF vN]] obtain vn' where
        l: "map_of (s_open ?s') v = Some vn'" and
        c: "vn' = neighbourNode m mn fin v \<or>
            (map_of ?O v = Some vn' \<and> totalCost vn' \<le> totalCost (neighbourNode m mn fin v))"
        by blast
      from c have "moveCost vn' \<le> moveCost mn + 1"
      proof
        assume "vn' = neighbourNode m mn fin v"
        then show ?thesis by (simp add: neighbourNode_fields)
      next
        assume a: "map_of ?O v = Some vn' \<and> totalCost vn' \<le> totalCost (neighbourNode m mn fin v)"
        then have "totalCost vn' = moveCost vn' + getHeuristicMeasure v fin"
          using okO N0[OF vN] tot by blast
        with a show ?thesis by (simp add: neighbourNode_fields)
      qed
      with l un show ?thesis by blast
    qed
  next
    case False
    with u have uC: "map_of ?C u = Some un" unfolding lC' by simp
    from edge[OF uC p] show ?thesis
    proof
      assume "v \<in> fst ` set ?C"
      then show ?thesis unfolding kC' by simp
    next
      assume "\<exists>vn. map_of ?O v = Some vn \<and> moveCost vn \<le> moveCost un + 1"
      then obtain vn where vn: "map_of ?O v = Some vn" "moveCost vn \<le> moveCost un + 1" by blast
      show ?thesis
      proof (cases "v = m")
        case True
        then show ?thesis unfolding kC' by simp
      next
        case vm: False
        from expand_open_old[OF vn(1) vm, of fin mn] obtain vn' where
          l: "map_of (s_open ?s') v = Some vn'" and
          c: "vn' = vn \<or> (vn' = neighbourNode m mn fin v \<and> totalCost vn' < totalCost vn)"
          by blast
        have v0: "v \<noteq> (0, 0)"
        proof
          assume "v = (0, 0)"
          with st' have "v \<in> insert m (fst ` set ?C)" unfolding kC' by simp
          moreover have "v \<in> fst ` set ?O" using vn(1) by (rule map_of_keys)
          ultimately show False using vm disj by blast
        qed
        have t1: "totalCost vn = moveCost vn + getHeuristicMeasure v fin"
          using okO[OF vn(1)] v0 by (rule tot)
        have t2: "totalCost vn' = moveCost vn' + getHeuristicMeasure v fin"
          using okO'[OF l] v0 by (rule tot)
        from c t1 t2 have "moveCost vn' \<le> moveCost vn" by auto
        with l vn(2) show ?thesis by auto
      qed
    qed
  qed
  have opt': "moveCost un \<le> int k"
    if u: "map_of (s_closed ?s') u = Some un" and w: "walk g k (0, 0) u" for u un k
  proof (cases "u = m")
    case True
    with u have "un = mn" unfolding lC' by simp
    with selected_optimal[OF inv m mn] w True show ?thesis by simp
  next
    case False
    with u have "map_of ?C u = Some un" unfolding lC' by simp
    then show ?thesis using w by (rule opt)
  qed
  have disj': "fst ` set (s_open ?s') \<inter> fst ` set (s_closed ?s') = {}"
    unfolding expand_keys using disj getViableNeighbours_sub[of _ "s_grid s" m ?C] by blast
  have "s_grid ?s' = g" using gr by (simp add: expand_keys(3))
  moreover have "distinct (map fst (s_open ?s'))" using dO by (rule expand_distinct(1))
  moreover have "distinct (map fst (s_closed ?s'))" using dC by (rule expand_distinct(2))
  ultimately show ?thesis
    unfolding astar_inv_def
    using disj' st' okO' okC' edge' opt' by blast
qed

lemma reachable_inv: "reachable g fin s \<Longrightarrow> astar_inv g fin s"
  by (induction rule: reachable.induct) (auto intro: astar_inv_init astar_inv_expand)

lemma astar_inv_open_ok:
  "astar_inv g fin s \<Longrightarrow> map_of (s_open s) k = Some n \<Longrightarrow> node_ok g fin (s_closed s) k n"
  unfolding astar_inv_def by blast

lemma astar_inv_closed_ok:
  "astar_inv g fin s \<Longrightarrow> map_of (s_closed s) k = Some n \<Longrightarrow> node_ok g fin (s_closed s) k n"
  unfolding astar_inv_def by blast

lemma astar_inv_selects:
  assumes inv: "astar_inv g fin s" and ne: "s_open s \<noteq> []"
  shows "\<exists>m mn. getLowestCostNodeKey (s_open s) = Some m \<and> map_of (s_open s) m = Some mn"
proof -
  from inv have d: "distinct (map fst (s_open s))" unfolding astar_inv_def by blast
  from getLowestCostNodeKey_first_min[OF d ne] obtain i where
    i: "i < length (s_open s)" "getLowestCostNodeKey (s_open s) = Some (fst (s_open s ! i))" by blast
  have "map_of (s_open s) (fst (s_open s ! i)) = Some (snd (s_open s ! i))"
    using i(1) by (simp add: map_of_eq_Some_iff[OF d])
  with i(2) show ?thesis by blast
qed

lemma findPath_loop_result:
  "astar_inv g fin s \<Longrightarrow>
     fst (findPath_loop fin s) = Inr None \<or>
     (\<exists>C mn. fst (findPath_loop fin s) = Inr (Some (C, fin)) \<and> map_of C fin = Some mn \<and>
        (\<forall>k n. map_of C k = Some n \<longrightarrow> node_ok g fin C k n) \<and>
        (\<forall>j. walk g j (0, 0) fin \<longrightarrow> moveCost mn \<le> int j))"
proof (induction fin s rule: findPath_loop.induct)
  case (1 fin s)
  note inv = "1.prems"
  show ?case
  proof (cases "s_open s = []")
    case True
    then show ?thesis by (simp add: findPath_loop.simps)
  next
    case ne: False
    from astar_inv_selects[OF inv ne] obtain m mn where
      m: "getLowestCostNodeKey (s_open s) = Some m" and mn: "map_of (s_open s) m = Some mn"
      by blast
    show ?thesis
    proof (cases "m = fin")
      case True
      let ?C = "AList.update fin mn (s_closed s)"
      have r: "fst (findPath_loop fin s) = Inr (Some (?C, fin))"
        using ne m mn True by (simp add: findPath_loop.simps[of fin s] Let_def)
      have l: "map_of ?C fin = Some mn" by (simp add: AList.update_conv')
      have mO: "fin \<in> fst ` set (s_open s)" using map_of_keys[OF mn] True by simp
      with inv have mC: "fin \<notin> fst ` set (s_closed s)" unfolding astar_inv_def by blast
      have ok: "node_ok g fin ?C k n" if "map_of ?C k = Some n" for k n
      proof -
        have "node_ok g fin (s_closed s) k n"
        proof (cases "k = fin")
          case kf: True
          with that have "n = mn" by (simp add: AList.update_conv')
          with kf True astar_inv_open_ok[OF inv mn] show ?thesis by simp
        next
          case False
          with that have "map_of (s_closed s) k = Some n" by (simp add: AList.update_conv')
          with inv show ?thesis by (rule astar_inv_closed_ok)
        qed
        then show ?thesis using mC by (rule node_ok_update)
      qed
      have "moveCost mn \<le> int j" if "walk g j (0, 0) fin" for j
        using selected_optimal[OF inv m mn] that True by simp
      with r l ok show ?thesis by blast
    next
      case False
      have "astar_inv g fin (expand fin m mn s)" using inv m mn by (rule astar_inv_expand)
      from "1.IH"[OF ne m mn False this] ne m mn False show ?thesis
        by (simp add: findPath_loop.simps[of fin s])
    qed
  qed
qed

lemma route_snoc:
  "route step xs \<Longrightarrow> step (last xs) c \<Longrightarrow> route step (xs @ [c])"
  by (induction step xs rule: route.induct) auto

lemma route_nonempty: "route step xs \<Longrightarrow> xs \<noteq> []"
  by auto

lemma drawFoundPath_chain:
  assumes ok: "\<And>k n. map_of C k = Some n \<Longrightarrow> node_ok g fin C k n"
  shows "map_of C k = Some n \<Longrightarrow>
     \<exists>cells. drawFoundPath C k = Some (Inr cells) \<and> int (length cells) = moveCost n + 1 \<and>
        hd cells = k \<and> last cells = (0, 0) \<and> route (passable g) (rev cells)"
proof (induction "nat (moveCost n)" arbitrary: k n)
  case 0
  have "k = (0, 0)"
  proof (rule ccontr)
    assume "k \<noteq> (0, 0)"
    with ok[OF 0(2)] have "1 \<le> moveCost n" by (auto simp: node_ok_def)
    with 0(1) show False by simp
  qed
  with ok[OF 0(2)] have "n = startNode" by (simp add: node_ok_def)
  with \<open>k = (0, 0)\<close> show ?case
    by (simp add: drawFoundPath.simps[of C "(0, 0)"] startNode_def)
next
  case (Suc x)
  have k0: "k \<noteq> (0, 0)"
  proof
    assume "k = (0, 0)"
    with ok[OF Suc(3)] have "n = startNode" by (simp add: node_ok_def)
    with Suc(2) show False by (simp add: startNode_def)
  qed
  with ok[OF Suc(3)] obtain pn where pn: "map_of C (parent n) = Some pn"
    "moveCost n = moveCost pn + 1" "0 \<le> moveCost pn" "passable g (parent n) k"
    by (auto simp: node_ok_def)
  have "x = nat (moveCost pn)" using Suc(2) pn(2) by simp
  from Suc(1)[OF this pn(1)] obtain cells where
    c: "drawFoundPath C (parent n) = Some (Inr cells)" "int (length cells) = moveCost pn + 1"
       "hd cells = parent n" "last cells = (0, 0)" "route (passable g) (rev cells)"
    by blast
  have ne: "cells \<noteq> []" using c(2) pn(3) by auto
  have d: "drawFoundPath C k = Some (Inr (k # cells))"
    using k0 Suc(3) c(1) by (simp add: drawFoundPath.simps[of C k])
  have "last (rev cells) = parent n" using c(3) ne by (simp add: last_rev)
  with c(5) pn(4) have "route (passable g) (rev cells @ [k])" by (intro route_snoc) simp_all
  with d c(2) c(4) pn(2) ne show ?case by simp
qed

lemma findPath_Some:
  assumes "findPath g w h = Inr (Some (closed, goal))"
  shows "goal = (w - 1, h - 1) \<and>
     (\<exists>mn. map_of closed goal = Some mn \<and>
        (\<forall>k n. map_of closed k = Some n \<longrightarrow> node_ok g goal closed k n) \<and>
        (\<forall>j. walk g j (0, 0) goal \<longrightarrow> moveCost mn \<le> int j))"
  using findPath_loop_result[OF astar_inv_init[of g "(w - 1, h - 1)"]] assms
  unfolding findPath_def findPath_run_def by auto

lemma findPath_not_error: "findPath g w h \<noteq> Inl e"
  using findPath_loop_result[OF astar_inv_init[of g "(w - 1, h - 1)"]]
  unfolding findPath_def findPath_run_def by auto

lemma spec_step_iff:
  "spec_step g a b \<longleftrightarrow> (\<exists>d. b = neighbour a d \<and> spec_is_open g a d)"
  unfolding spec_step_def using side_cases by blast

lemma spec_step_passable:
  assumes s: "wall_symmetric g" and st: "spec_step g a b"
  shows "passable g a b"
proof -
  from st obtain d wa wb where d: "b = neighbour a d" and wa: "map_of g a = Some wa"
    and wb: "map_of g (neighbour a d) = Some wb" and o: "\<not> has_wall wa d"
    unfolding spec_step_iff spec_is_open_iff by blast
  from s wa wb have "has_wall wa d = has_wall wb (opposite d)" by (rule wall_symmetricD)
  with o wb d show ?thesis unfolding passable_iff by blast
qed

lemma passable_spec_step:
  assumes s: "wall_symmetric g" and a: "a \<in> fst ` set g" and p: "passable g a b"
  shows "spec_step g a b \<and> b \<in> fst ` set g"
proof -
  from p obtain d wb where d: "b = neighbour a d" and wb: "map_of g b = Some wb"
    and o: "\<not> has_wall wb (opposite d)" unfolding passable_iff by blast
  from a obtain wa where wa: "map_of g a = Some wa" by (metis map_of_eq_None_iff not_Some_eq)
  from s wa wb[unfolded d] have "has_wall wa d = has_wall wb (opposite d)" by (rule wall_symmetricD)
  with o wa wb d have "spec_is_open g a d" unfolding spec_is_open_iff by blast
  with d have "spec_step g a b" unfolding spec_step_iff by blast
  moreover have "b \<in> fst ` set g" using wb by (rule map_of_keys)
  ultimately show ?thesis ..
qed

lemma route_mono:
  "route P r \<Longrightarrow> (\<And>a b. P a b \<Longrightarrow> Q a b) \<Longrightarrow> route Q r"
  by (induction P r rule: route.induct) auto

lemma route_passable_spec:
  "route (passable g) r \<Longrightarrow> wall_symmetric g \<Longrightarrow> hd r \<in> fst ` set g \<Longrightarrow> route (spec_step g) r"
proof (induction "passable g" r rule: route.induct)
  case 1
  then show ?case by simp
next
  case (2 c)
  then show ?case by simp
next
  case (3 a b cs)
  from 3(2) have p: "passable g a b" and r: "route (passable g) (b # cs)" by simp_all
  from passable_spec_step[OF 3(3) _ p] 3(4) have "spec_step g a b" "b \<in> fst ` set g" by simp_all
  with 3(1)[OF r 3(3)] show ?case by simp
qed

text \<open>
  Claim C2, as the code has it. On a wall-symmetric grid, when
  \<open>findPath\<close> returns a closed set and a goal, the goal is the cell
  \<open>(gridWidth - 1, gridHeight - 1)\<close> and the walk over the parent links
  from the goal ends at the start cell. Read backwards, the cells walked
  form a route of the solver's moves from (0,0) to the goal, and no route
  from (0,0) to the goal, of open passages in the sense of \<open>is_open\<close> or
  of the solver's moves, has fewer cells. When the grid holds the start
  cell (0,0), the cells walked are themselves a route of open passages, and
  so a shortest one.
\<close>

theorem findPath_shortest:
  assumes sym: "wall_symmetric g"
    and found: "findPath g gridWidth gridHeight = Inr (Some (closedNodes, goal))"
  shows "goal = (gridWidth - 1, gridHeight - 1) \<and>
     (\<exists>cells. drawFoundPath closedNodes goal = Some (Inr cells) \<and>
        hd (rev cells) = (0, 0) \<and> last (rev cells) = goal \<and>
        route (passable g) (rev cells) \<and>
        ((0, 0) \<in> fst ` set g \<longrightarrow> route (spec_step g) (rev cells)) \<and>
        (\<forall>r. route (spec_step g) r \<and> hd r = (0, 0) \<and> last r = goal \<longrightarrow> length cells \<le> length r) \<and>
        (\<forall>r. route (passable g) r \<and> hd r = (0, 0) \<and> last r = goal \<longrightarrow> length cells \<le> length r))"
proof -
  from findPath_Some[OF found] obtain mn where
    goal: "goal = (gridWidth - 1, gridHeight - 1)" and mn: "map_of closedNodes goal = Some mn" and
    ok: "\<And>k n. map_of closedNodes k = Some n \<Longrightarrow> node_ok g goal closedNodes k n" and
    opt: "\<And>j. walk g j (0, 0) goal \<Longrightarrow> moveCost mn \<le> int j"
    by blast
  from drawFoundPath_chain[of closedNodes g goal, OF ok mn] obtain cells where
    c: "drawFoundPath closedNodes goal = Some (Inr cells)" "int (length cells) = moveCost mn + 1"
       "hd cells = goal" "last cells = (0, 0)" "route (passable g) (rev cells)"
    by blast
  have ne: "cells \<noteq> []" using c(5) by auto
  have h: "hd (rev cells) = (0, 0)" "last (rev cells) = goal"
    using ne c(3) c(4) by (simp_all add: hd_rev last_rev)
  have short: "length cells \<le> length r"
    if r: "route (passable g) r" "hd r = (0, 0)" "last r = goal" for r
  proof -
    have "walk g (length r - 1) (0, 0) goal" using route_walk[OF r(1)] r(2) r(3) by simp
    then have "moveCost mn \<le> int (length r - 1)" by (rule opt)
    moreover have "r \<noteq> []" using r(1) by auto
    ultimately show ?thesis using c(2) by (cases r) simp_all
  qed
  have short': "length cells \<le> length r"
    if r: "route (spec_step g) r" "hd r = (0, 0)" "last r = goal" for r
  proof -
    have "route (passable g) r" using r(1) spec_step_passable[OF sym] by (rule route_mono)
    then show ?thesis using r(2) r(3) by (rule short)
  qed
  have sp: "route (spec_step g) (rev cells)" if "(0, 0) \<in> fst ` set g"
    using c(5) sym that h(1) by (intro route_passable_spec) simp_all
  from goal c(1) h c(5) sp short short' show ?thesis by blast
qed

theorem findPath_shortest_witness:
  "wall_symmetric exampleGrid \<and>
   findPath exampleGrid 2 2 = Inr (Some (exampleClosed, (1, 1))) \<and>
   (0, 0) \<in> fst ` set exampleGrid \<and>
   drawFoundPath exampleClosed (1, 1) = Some (Inr [(1, 1), (1, 0), (0, 0)]) \<and>
   route (spec_step exampleGrid) [(0, 0), (1, 0), (1, 1)]"
proof -
  have s: "wall_symmetric exampleGrid" by code_simp
  have f: "findPath exampleGrid 2 2 = Inr (Some (exampleClosed, (1, 1)))" by code_simp
  have d: "drawFoundPath exampleClosed (1, 1) = Some (Inr [(1, 1), (1, 0), (0, 0)])"
    by (simp add: drawFoundPath.simps exampleClosed_def)
  have k: "(0, 0) \<in> fst ` set exampleGrid" by (simp add: exampleGrid_def)
  from findPath_shortest[OF s f] d k show ?thesis using s f by auto
qed

text \<open>
  The claim as worded, for every wall-symmetric grid, fails on a grid that
  does not hold the start cell. The grid whose only cell is (1,0), with its
  left wall open, is wall-symmetric, since it has no two neighbouring
  cells. \<open>findPath\<close> starts from (0,0) all the same, finds the left wall
  of (1,0) open and returns the path from (0,0) to (1,0); that path is no
  route of open passages, because (0,0) is no cell of the grid and has no
  wall to be open.
\<close>

theorem findPath_absent_start_counterexample:
  "wall_symmetric [((1, 0), closed_walls\<lparr>left_wall := False\<rparr>)] \<and>
   findPath [((1, 0), closed_walls\<lparr>left_wall := False\<rparr>)] 2 1 =
     Inr (Some ([((0, 0), \<lparr>parent = (0, 0), moveCost = 0, distCost = 0, totalCost = 0\<rparr>),
                 ((1, 0), \<lparr>parent = (0, 0), moveCost = 1, distCost = 0, totalCost = 1\<rparr>)],
                (1, 0))) \<and>
   drawFoundPath
     [((0, 0), \<lparr>parent = (0, 0), moveCost = 0, distCost = 0, totalCost = 0\<rparr>),
      ((1, 0), \<lparr>parent = (0, 0), moveCost = 1, distCost = 0, totalCost = 1\<rparr>)] (1, 0) =
     Some (Inr [(1, 0), (0, 0)]) \<and>
   \<not> route (spec_step [((1, 0), closed_walls\<lparr>left_wall := False\<rparr>)]) [(0, 0), (1, 0)]"
proof (intro conjI)
  show "wall_symmetric [((1, 0), closed_walls\<lparr>left_wall := False\<rparr>)]"
    by code_simp
  show "findPath [((1, 0), closed_walls\<lparr>left_wall := False\<rparr>)] 2 1 =
     Inr (Some ([((0, 0), \<lparr>parent = (0, 0), moveCost = 0, distCost = 0, totalCost = 0\<rparr>),
                 ((1, 0), \<lparr>parent = (0, 0), moveCost = 1, distCost = 0, totalCost = 1\<rparr>)],
                (1, 0)))"
    by code_simp
  show "drawFoundPath
     [((0, 0), \<lparr>parent = (0, 0), moveCost = 0, distCost = 0, totalCost = 0\<rparr>),
      ((1, 0), \<lparr>parent = (0, 0), moveCost = 1, distCost = 0, totalCost = 1\<rparr>)] (1, 0) =
     Some (Inr [(1, 0), (0, 0)])"
    by (simp add: drawFoundPath.simps)
  show "\<not> route (spec_step [((1, 0), closed_walls\<lparr>left_wall := False\<rparr>)]) [(0, 0), (1, 0)]"
    by (simp add: spec_step_def spec_is_open_def)
qed

lemma findPath_cases:
  "findPath g w h = Inr None \<or> (\<exists>closedNodes goal. findPath g w h = Inr (Some (closedNodes, goal)))"
proof (cases "findPath g w h")
  case (Inl e)
  then show ?thesis using findPath_not_error by blast
next
  case (Inr r)
  then show ?thesis by (cases r) auto
qed

lemma findPath_Some_route:
  assumes "findPath g w h = Inr (Some (closedNodes, goal))"
  shows "\<exists>r. route (passable g) r \<and> hd r = (0, 0) \<and> last r = (w - 1, h - 1)"
proof -
  from findPath_Some[OF assms] obtain mn where
    goal: "goal = (w - 1, h - 1)" and mn: "map_of closedNodes goal = Some mn" and
    ok: "\<And>k n. map_of closedNodes k = Some n \<Longrightarrow> node_ok g goal closedNodes k n"
    by blast
  from drawFoundPath_chain[of closedNodes g goal, OF ok mn] obtain cells where
    c: "hd cells = goal" "last cells = (0, 0)" "route (passable g) (rev cells)"
    by blast
  have ne: "cells \<noteq> []" using c(3) by auto
  have "hd (rev cells) = (0, 0)" "last (rev cells) = (w - 1, h - 1)"
    using ne c goal by (simp_all add: hd_rev last_rev)
  with c(3) show ?thesis by blast
qed

lemma findPath_Some_last_move:
  assumes "findPath g w h = Inr (Some (closedNodes, goal))" and "(w - 1, h - 1) \<noteq> (0, 0)"
  shows "\<exists>a. passable g a (w - 1, h - 1)"
proof -
  from findPath_Some[OF assms(1)] obtain mn where
    goal: "goal = (w - 1, h - 1)" and ok: "node_ok g goal closedNodes goal mn"
    by blast
  from assms(2) goal have "goal \<noteq> (0, 0)" by simp
  with ok have "passable g (parent mn) goal" unfolding node_ok_def by auto
  with goal show ?thesis by blast
qed

text \<open>
  Claim C7, as the code has it. \<open>findPath\<close> returns \<open>undefined\<close>, without
  throwing, on every grid in which no route of the solver's moves leads
  from (0,0) to the goal; on a wall-symmetric grid that holds the start
  cell these are the grids with no route of open passages in the sense of
  \<open>is_open\<close>. In particular it does so when the goal cell is not the start
  cell and is absent or has all four walls closed. A route is a non-empty
  list of cells, so the start cell alone is a route to itself.
\<close>

theorem findPath_not_found:
  "((\<nexists>r. route (passable g) r \<and> hd r = (0, 0) \<and> last r = (gridWidth - 1, gridHeight - 1)) \<longrightarrow>
      findPath g gridWidth gridHeight = Inr None) \<and>
   (wall_symmetric g \<and> (0, 0) \<in> fst ` set g \<and>
    (\<nexists>r. route (spec_step g) r \<and> hd r = (0, 0) \<and> last r = (gridWidth - 1, gridHeight - 1)) \<longrightarrow>
      findPath g gridWidth gridHeight = Inr None) \<and>
   ((gridWidth - 1, gridHeight - 1) \<noteq> (0, 0) \<and>
    (case map_of g (gridWidth - 1, gridHeight - 1) of
       None \<Rightarrow> True
     | Some ws \<Rightarrow> top_wall ws \<and> bottom_wall ws \<and> left_wall ws \<and> right_wall ws) \<longrightarrow>
      findPath g gridWidth gridHeight = Inr None)"
proof (intro conjI impI)
  assume "\<nexists>r. route (passable g) r \<and> hd r = (0, 0) \<and> last r = (gridWidth - 1, gridHeight - 1)"
  then show "findPath g gridWidth gridHeight = Inr None"
    using findPath_cases[of g gridWidth gridHeight] findPath_Some_route by blast
next
  assume a: "wall_symmetric g \<and> (0, 0) \<in> fst ` set g \<and>
    (\<nexists>r. route (spec_step g) r \<and> hd r = (0, 0) \<and> last r = (gridWidth - 1, gridHeight - 1))"
  have "\<nexists>r. route (passable g) r \<and> hd r = (0, 0) \<and> last r = (gridWidth - 1, gridHeight - 1)"
  proof
    assume "\<exists>r. route (passable g) r \<and> hd r = (0, 0) \<and> last r = (gridWidth - 1, gridHeight - 1)"
    then obtain r where r: "route (passable g) r" "hd r = (0, 0)"
      "last r = (gridWidth - 1, gridHeight - 1)" by blast
    from r(1) a r(2) have "route (spec_step g) r" by (intro route_passable_spec) simp_all
    with a r show False by blast
  qed
  then show "findPath g gridWidth gridHeight = Inr None"
    using findPath_cases[of g gridWidth gridHeight] findPath_Some_route by blast
next
  assume a: "(gridWidth - 1, gridHeight - 1) \<noteq> (0, 0) \<and>
    (case map_of g (gridWidth - 1, gridHeight - 1) of
       None \<Rightarrow> True
     | Some ws \<Rightarrow> top_wall ws \<and> bottom_wall ws \<and> left_wall ws \<and> right_wall ws)"
  have "\<not> passable g c (gridWidth - 1, gridHeight - 1)" for c
  proof
    assume "passable g c (gridWidth - 1, gridHeight - 1)"
    then obtain d ws where "map_of g (gridWidth - 1, gridHeight - 1) = Some ws"
      "\<not> has_wall ws (opposite d)" unfolding passable_iff by blast
    with a show False by (cases d) simp_all
  qed
  then show "findPath g gridWidth gridHeight = Inr None"
    using findPath_cases[of g gridWidth gridHeight] findPath_Some_last_move a by blast
qed

theorem findPath_not_found_witness:
  "(\<nexists>r. route (passable (populateGrid 2 2)) r \<and> hd r = (0, 0) \<and> last r = (1, 1)) \<and>
   wall_symmetric (populateGrid 2 2) \<and> (0, 0) \<in> fst ` set (populateGrid 2 2) \<and>
   map_of (populateGrid 2 2) (1, 1) = Some closed_walls \<and>
   findPath (populateGrid 2 2) 2 2 = Inr None"
proof -
  have g: "map_of (populateGrid 2 2) (1, 1) = Some closed_walls" by code_simp
  have f: "findPath (populateGrid 2 2) 2 2 = Inr None"
    using findPath_not_found[of "populateGrid 2 2" 2 2] g by (simp add: closed_walls_def)
  have s: "wall_symmetric (populateGrid 2 2) \<and> (0, 0) \<in> fst ` set (populateGrid 2 2)" by code_simp
  have "\<nexists>r. route (passable (populateGrid 2 2)) r \<and> hd r = (0, 0) \<and> last r = (1, 1)"
  proof
    assume "\<exists>r. route (passable (populateGrid 2 2)) r \<and> hd r = (0, 0) \<and> last r = (1, 1)"
    then obtain r where r: "route (passable (populateGrid 2 2)) r" "hd r = (0, 0)" "last r = (1, 1)"
      by blast
    have "\<And>a b. passable (populateGrid 2 2) a b \<Longrightarrow> False"
      unfolding passable_iff using populateGrid_lookup_Some has_wall_closed by blast
    with r(1) have "route (\<lambda>a b. False) r" by (rule route_mono)
    then have "\<exists>c. r = [c]" by (induction "\<lambda>(a::cell) (b::cell). False" r rule: route.induct) auto
    with r(2) r(3) show False by auto
  qed
  with g f s show ?thesis by blast
qed

text \<open>
  The claim as worded fails where the goal is the start cell: on the
  fully walled 1 by 1 grid the goal cell (0,0) has all four walls closed,
  and \<open>findPath\<close> returns the closed set with that cell and the goal.
  It also fails on a grid that is not wall-symmetric when open passages
  are read as \<open>is_open\<close> reads them: with all walls of (0,0) closed
  and the left wall of (1,0) open, no passage leaves (0,0), and
  \<open>findPath\<close> returns the path from (0,0) to (1,0).
\<close>

theorem findPath_isolated_goal_counterexample:
  "map_of (populateGrid 1 1) (0, 0) =
     Some \<lparr>top_wall = True, bottom_wall = True, left_wall = True, right_wall = True\<rparr> \<and>
   findPath (populateGrid 1 1) 1 1 =
     Inr (Some ([((0, 0), \<lparr>parent = (0, 0), moveCost = 0, distCost = 0, totalCost = 0\<rparr>)], (0, 0))) \<and>
   \<not> spec_is_open [((0, 0), closed_walls), ((1, 0), closed_walls\<lparr>left_wall := False\<rparr>)]
       (0, 0) TopSide \<and>
   \<not> spec_is_open [((0, 0), closed_walls), ((1, 0), closed_walls\<lparr>left_wall := False\<rparr>)]
       (0, 0) BottomSide \<and>
   \<not> spec_is_open [((0, 0), closed_walls), ((1, 0), closed_walls\<lparr>left_wall := False\<rparr>)]
       (0, 0) LeftSide \<and>
   \<not> spec_is_open [((0, 0), closed_walls), ((1, 0), closed_walls\<lparr>left_wall := False\<rparr>)]
       (0, 0) RightSide \<and>
   findPath [((0, 0), closed_walls), ((1, 0), closed_walls\<lparr>left_wall := False\<rparr>)] 2 1 =
     Inr (Some ([((0, 0), \<lparr>parent = (0, 0), moveCost = 0, distCost = 0, totalCost = 0\<rparr>),
                 ((1, 0), \<lparr>parent = (0, 0), moveCost = 1, distCost = 0, totalCost = 1\<rparr>)],
                (1, 0)))"
  by code_simp

lemma considerNeighbour_key_order:
  "map fst (considerNeighbour k n fin al nb) =
     (if nb \<in> fst ` set al then map fst al else map fst al @ [nb])"
proof (cases "map_of al nb")
  case None
  then have "nb \<notin> fst ` set al" by (simp add: map_of_eq_None_iff)
  with None show ?thesis by (simp add: considerNeighbour_def Let_def AList.update_keys)
next
  case (Some held)
  then have "nb \<in> fst ` set al" by (rule map_of_keys)
  with Some show ?thesis by (simp add: considerNeighbour_def Let_def AList.update_keys)
qed

lemma considerNeighbour_fold_key_order:
  "distinct nbs \<Longrightarrow>
   map fst (foldl (considerNeighbour k n fin) al nbs) =
     map fst al @ filter (\<lambda>v. v \<notin> fst ` set al) nbs"
proof (induction nbs arbitrary: al)
  case Nil
  then show ?case by simp
next
  case (Cons x xs)
  from Cons.prems have d: "distinct xs" and x: "x \<notin> set xs" by simp_all
  have f: "filter (\<lambda>v. v \<notin> insert x (fst ` set al)) xs = filter (\<lambda>v. v \<notin> fst ` set al) xs"
    using x by (intro filter_cong) auto
  show ?case
    unfolding foldl_Cons Cons.IH[OF d] considerNeighbour_key_order considerNeighbour_keys
    using f by simp
qed

lemma getViableNeighbours_distinct: "distinct (getViableNeighbours g c closedNodes)"
  by (cases c) (simp add: getViableNeighbours_def Let_def)

lemma expand_key_order:
  "map fst (s_open (expand fin k n s)) =
     removeAll k (map fst (s_open s)) @
     filter (\<lambda>v. v \<notin> fst ` set (s_open s)) (getViableNeighbours (s_grid s) k (s_closed s))"
proof -
  have "k \<notin> set (getViableNeighbours (s_grid s) k (s_closed s))"
    using passable_neq unfolding getViableNeighbours_passable by blast
  then have "removeAll k (filter (\<lambda>v. v \<notin> fst ` set (s_open s))
        (getViableNeighbours (s_grid s) k (s_closed s))) =
      filter (\<lambda>v. v \<notin> fst ` set (s_open s)) (getViableNeighbours (s_grid s) k (s_closed s))"
    by simp
  then show ?thesis
    unfolding expand_def
    by (simp add: AList.delete_keys considerNeighbour_fold_key_order[OF getViableNeighbours_distinct])
qed

text \<open>
  Claim C5. In every state that the loop of \<open>findPath\<close> reaches with a
  non-empty frontier, the entry that \<open>getLowestCostNodeKey\<close> selects has the
  least total cost, and every entry before it in the key order of the
  frontier has a strictly greater one: among entries of least total cost
  the first in key order is selected. The key order is the order of
  insertion: a pass of the loop body keeps the surviving keys in their order
  (a replaced entry keeps its place) and puts behind them the keys it
  inserts, in the order in which the neighbours were considered.
\<close>

theorem frontier_selection:
  assumes "reachable g finishCell s" and "s_open s \<noteq> []"
  shows "\<exists>i < length (s_open s).
     getLowestCostNodeKey (s_open s) = Some (fst (s_open s ! i)) \<and>
     (\<forall>j < length (s_open s). totalCost (snd (s_open s ! i)) \<le> totalCost (snd (s_open s ! j))) \<and>
     (\<forall>j < i. totalCost (snd (s_open s ! i)) < totalCost (snd (s_open s ! j))) \<and>
     map fst (s_open (expand finishCell (fst (s_open s ! i)) (snd (s_open s ! i)) s)) =
       removeAll (fst (s_open s ! i)) (map fst (s_open s)) @
       filter (\<lambda>v. v \<notin> fst ` set (s_open s))
         (getViableNeighbours g (fst (s_open s ! i)) (s_closed s))"
proof -
  from assms(1) have inv: "astar_inv g finishCell s" by (rule reachable_inv)
  then have d: "distinct (map fst (s_open s))" and gr: "s_grid s = g"
    unfolding astar_inv_def by blast+
  from getLowestCostNodeKey_first_min[OF d assms(2)] expand_key_order[of finishCell _ _ s]
  show ?thesis unfolding gr by blast
qed

theorem frontier_selection_witness:
  "reachable ringGrid (1, 1) (expand (1, 1) (0, 0) startNode (initialState ringGrid)) \<and>
   s_open (expand (1, 1) (0, 0) startNode (initialState ringGrid)) =
     [((0, 1), \<lparr>parent = (0, 0), moveCost = 1, distCost = 1, totalCost = 2\<rparr>),
      ((1, 0), \<lparr>parent = (0, 0), moveCost = 1, distCost = 1, totalCost = 2\<rparr>)] \<and>
   getLowestCostNodeKey (s_open (expand (1, 1) (0, 0) startNode (initialState ringGrid))) =
     Some (0, 1)"
proof -
  let ?s = "expand (1, 1) (0, 0) startNode (initialState ringGrid)"
  have k: "getLowestCostNodeKey (s_open (initialState ringGrid)) = Some (0, 0)"
    by code_simp
  have n: "map_of (s_open (initialState ringGrid)) (0, 0) = Some startNode"
    by (simp add: initialState_def)
  have "reachable ringGrid (1, 1) (initialState ringGrid)" by (rule reachable_init)
  then have r: "reachable ringGrid (1, 1) ?s" using k n by (rule reachable_step) simp
  have e: "s_open ?s =
     [((0, 1), \<lparr>parent = (0, 0), moveCost = 1, distCost = 1, totalCost = 2\<rparr>),
      ((1, 0), \<lparr>parent = (0, 0), moveCost = 1, distCost = 1, totalCost = 2\<rparr>)]"
    by code_simp
  then have ne: "s_open ?s \<noteq> []" by simp
  from frontier_selection[OF r ne] obtain i where
    i: "i < length (s_open ?s)" and
    sel: "getLowestCostNodeKey (s_open ?s) = Some (fst (s_open ?s ! i))" and
    lt: "\<forall>j < i. totalCost (snd (s_open ?s ! i)) < totalCost (snd (s_open ?s ! j))"
    by blast
  have "i = 0"
  proof (rule ccontr)
    assume "i \<noteq> 0"
    with i e have "i = 1" by simp
    with lt have "totalCost (snd (s_open ?s ! 1)) < totalCost (snd (s_open ?s ! 0))" by simp
    then show False unfolding e by simp
  qed
  with sel have "getLowestCostNodeKey (s_open ?s) = Some (0, 1)" unfolding e by simp
  with r e show ?thesis by blast
qed

lemma reachable_start_node:
  assumes "astar_inv g fin s"
    and "map_of (s_open s) k = Some n \<or> map_of (s_closed s) k = Some n"
  shows "totalCost n = moveCost n + distCost n \<and>
         distCost n = (if k = (0, 0) then 0 else getHeuristicMeasure k fin)"
proof -
  have "node_ok g fin (s_closed s) k n"
    using assms astar_inv_open_ok astar_inv_closed_ok by blast
  then show ?thesis by (auto simp: node_ok_def startNode_def split: if_splits)
qed

text \<open>
  Claim C6, as the code has it. Every node that \<open>findPath\<close> builds for a
  neighbour has the Manhattan distance of the neighbour's cell to the
  finish cell as its heuristic cost and the sum of move cost and heuristic
  cost as its total cost. The start node is built with heuristic cost 0 and
  total cost 0, whatever its distance to the finish cell. So in every state
  that the loop reaches, and in a closed set that \<open>findPath\<close> returns,
  every node has total cost equal to move cost plus heuristic cost, and
  heuristic cost equal to the Manhattan distance to the finish cell except
  at the start cell (0,0), where it is 0.
\<close>

theorem search_node_costs:
  "distCost (neighbourNode currentKey current finishCell nb) = getHeuristicMeasure nb finishCell \<and>
   totalCost (neighbourNode currentKey current finishCell nb) =
     moveCost (neighbourNode currentKey current finishCell nb) +
     distCost (neighbourNode currentKey current finishCell nb) \<and>
   distCost startNode = 0 \<and> totalCost startNode = moveCost startNode + distCost startNode \<and>
   (reachable g finishCell s \<and> (map_of (s_open s) k = Some n \<or> map_of (s_closed s) k = Some n) \<longrightarrow>
      totalCost n = moveCost n + distCost n \<and>
      distCost n = (if k = (0, 0) then 0 else getHeuristicMeasure k finishCell)) \<and>
   (findPath g gridWidth gridHeight = Inr (Some (closedNodes, goal)) \<and>
    map_of closedNodes k' = Some n' \<longrightarrow>
      totalCost n' = moveCost n' + distCost n' \<and>
      distCost n' = (if k' = (0, 0) then 0 else getHeuristicMeasure k' (gridWidth - 1, gridHeight - 1)))"
proof (intro conjI impI)
  assume a: "reachable g finishCell s \<and> (map_of (s_open s) k = Some n \<or> map_of (s_closed s) k = Some n)"
  then have "astar_inv g finishCell s" using reachable_inv by blast
  with a show "totalCost n = moveCost n + distCost n"
    and "distCost n = (if k = (0, 0) then 0 else getHeuristicMeasure k finishCell)"
    using reachable_start_node by blast+
next
  assume a: "findPath g gridWidth gridHeight = Inr (Some (closedNodes, goal)) \<and>
    map_of closedNodes k' = Some n'"
  with findPath_Some[of g gridWidth gridHeight closedNodes goal]
  have goal: "goal = (gridWidth - 1, gridHeight - 1)" and "node_ok g goal closedNodes k' n'"
    by blast+
  then show "totalCost n' = moveCost n' + distCost n'"
    and "distCost n' = (if k' = (0, 0) then 0 else getHeuristicMeasure k' (gridWidth - 1, gridHeight - 1))"
    by (auto simp: node_ok_def startNode_def split: if_splits)
qed (simp_all add: neighbourNode_fields startNode_def)

theorem search_node_costs_witness:
  "findPath exampleGrid 2 2 = Inr (Some (exampleClosed, (1, 1))) \<and>
   map_of exampleClosed (1, 0) = Some \<lparr>parent = (0, 0), moveCost = 1, distCost = 1, totalCost = 2\<rparr> \<and>
   getHeuristicMeasure (1, 0) (1, 1) = 1 \<and>
   reachable exampleGrid (1, 1) (initialState exampleGrid) \<and>
   map_of (s_open (initialState exampleGrid)) (0, 0) = Some startNode \<and>
   distCost startNode = 0"
proof -
  have f: "findPath exampleGrid 2 2 = Inr (Some (exampleClosed, (1, 1)))" by code_simp
  have l: "map_of exampleClosed (1, 0) =
    Some \<lparr>parent = (0, 0), moveCost = 1, distCost = 1, totalCost = 2\<rparr>"
    by (simp add: exampleClosed_def)
  have r: "reachable exampleGrid (1, 1) (initialState exampleGrid)" by (rule reachable_init)
  have o: "map_of (s_open (initialState exampleGrid)) (0, 0) = Some startNode"
    by (simp add: initialState_def)
  from search_node_costs[of "(0, 0)" startNode "(1, 1)" "(1, 0)" exampleGrid
      "initialState exampleGrid" "(0, 0)" startNode 2 2 exampleClosed "(1, 1)" "(1, 0)"
      "\<lparr>parent = (0, 0), moveCost = 1, distCost = 1, totalCost = 2\<rparr>"] f l r o
  show ?thesis by simp
qed

text \<open>
  The claim as worded, with the start node included, fails: on the example
  grid the closed set that \<open>findPath\<close> returns holds the start node with
  heuristic cost 0, while the Manhattan distance from (0,0) to the goal
  (1,1) is 2.
\<close>

theorem start_node_heuristic_counterexample:
  "findPath exampleGrid 2 2 = Inr (Some (exampleClosed, (1, 1))) \<and>
   map_option distCost (map_of exampleClosed (0, 0)) = Some 0 \<and>
   getHeuristicMeasure (0, 0) (1, 1) = 2"
  by code_simp

end
